theory Spec2Isabelle
  imports Complex_Main "HOL-Library.Multiset"
begin

section \<open>The Date values of the host language\<close>

text \<open>
  \<^verbatim>\<open>calendar.js\<close> works on JavaScript \<^verbatim>\<open>Date\<close> objects and reads them only through the
  local-time getters. A date is modelled by its local time value in milliseconds (the
  time value shifted by the zone offset, taken as fixed: no daylight-saving change inside
  the dates at hand), or it is the Invalid Date, whose getters all return NaN.
  The day arithmetic follows the ECMAScript definitions (Day, DayFromYear, YearFromTime,
  MonthFromTime, DateFromTime, WeekDay, MakeDay) on unbounded integers.
\<close>

datatype jsdate = InvalidDate | Date int

definition msPerDay :: int where
  "msPerDay = 86400000"

definition Day :: "int \<Rightarrow> int" where
  "Day t = t div msPerDay"

definition DayFromYear :: "int \<Rightarrow> int" where
  "DayFromYear y = 365 * (y - 1970) + (y - 1969) div 4 - (y - 1901) div 100 + (y - 1601) div 400"

definition InLeapYear :: "int \<Rightarrow> bool" where
  "InLeapYear y = (y mod 4 = 0 \<and> (y mod 100 \<noteq> 0 \<or> y mod 400 = 0))"

definition DaysInYear :: "int \<Rightarrow> int" where
  "DaysInYear y = (if InLeapYear y then 366 else 365)"

text \<open>
  YearFromTime is the largest year whose first day is not after the given day. It is
  computed by walking up from a year that is certainly not too late.
\<close>

function yearUp :: "int \<Rightarrow> int \<Rightarrow> int" where
  "yearUp y d = (if DayFromYear (y + 1) \<le> d then yearUp (y + 1) d else y)"
  by pat_completeness auto
termination
proof (relation "measure (\<lambda>(y, d). nat (d - DayFromYear y))", goal_cases)
  case 1
  show ?case by simp
next
  case (2 y d)
  define a a' b b' c c' where "a = (y - 1969) div 4" and "a' = (y + 1 - 1969) div 4"
    and "b = (y - 1901) div 100" and "b' = (y + 1 - 1901) div 100"
    and "c = (y - 1601) div 400" and "c' = (y + 1 - 1601) div 400"
  have a: "a \<le> a'"
    unfolding a_def a'_def by (intro zdiv_mono1) auto
  have "b' \<le> (y - 1901 + 100) div 100"
    unfolding b'_def by (intro zdiv_mono1) auto
  then have b: "b' \<le> b + 1"
    by (simp add: b_def)
  have c: "c \<le> c'"
    unfolding c_def c'_def by (intro zdiv_mono1) auto
  have "DayFromYear y = 365 * (y - 1970) + a - b + c"
    by (simp add: DayFromYear_def a_def b_def c_def)
  moreover have "DayFromYear (y + 1) = 365 * (y + 1 - 1970) + a' - b' + c'"
    by (simp add: DayFromYear_def a'_def b'_def c'_def)
  ultimately have "DayFromYear y < DayFromYear (y + 1)"
    using a b c by (simp add: algebra_simps)
  with 2 show ?case by simp
qed

declare yearUp.simps [simp del]

definition YearFromDay :: "int \<Rightarrow> int" where
  "YearFromDay d = yearUp (if 0 \<le> d then 1969 + d div 366 else 1969 + d div 365) d"

definition DayWithinYear :: "int \<Rightarrow> int" where
  "DayWithinYear d = d - DayFromYear (YearFromDay d)"

text \<open>The first day (within its year) of each month, 0 = January.\<close>

definition monthStart :: "bool \<Rightarrow> int \<Rightarrow> int" where
  "monthStart leap m =
     (let l = (if leap then 1 else 0) in
      if m = 0 then 0 else if m = 1 then 31 else if m = 2 then 59 + l
      else if m = 3 then 90 + l else if m = 4 then 120 + l else if m = 5 then 151 + l
      else if m = 6 then 181 + l else if m = 7 then 212 + l else if m = 8 then 243 + l
      else if m = 9 then 273 + l else if m = 10 then 304 + l else if m = 11 then 334 + l
      else 365 + l)"

definition monthOf :: "bool \<Rightarrow> int \<Rightarrow> int" where
  "monthOf leap w =
     (let l = (if leap then 1 else 0) in
      if w < 31 then 0 else if w < 59 + l then 1 else if w < 90 + l then 2
      else if w < 120 + l then 3 else if w < 151 + l then 4 else if w < 181 + l then 5
      else if w < 212 + l then 6 else if w < 243 + l then 7 else if w < 273 + l then 8
      else if w < 304 + l then 9 else if w < 334 + l then 10 else 11)"

definition MonthFromDay :: "int \<Rightarrow> int" where
  "MonthFromDay d = monthOf (InLeapYear (YearFromDay d)) (DayWithinYear d)"

definition DateFromDay :: "int \<Rightarrow> int" where
  "DateFromDay d =
     DayWithinYear d - monthStart (InLeapYear (YearFromDay d)) (MonthFromDay d) + 1"

definition WeekDay :: "int \<Rightarrow> int" where
  "WeekDay d = (d + 4) mod 7"

definition MakeDay :: "int \<Rightarrow> int \<Rightarrow> int \<Rightarrow> int" where
  "MakeDay year month dt =
     (let ym = year + month div 12; mn = month mod 12
      in DayFromYear ym + monthStart (InLeapYear ym) mn + dt - 1)"

text \<open>
  \<^verbatim>\<open>new Date(year, month, day)\<close>: local midnight of the day that MakeDay gives. The
  constructor reads a year from 0 to 99 as 1900 + year.
\<close>

definition fullYear :: "int \<Rightarrow> int" where
  "fullYear y = (if 0 \<le> y \<and> y \<le> 99 then 1900 + y else y)"

definition newDate :: "int \<Rightarrow> int \<Rightarrow> int \<Rightarrow> jsdate" where
  "newDate year month dt = Date (MakeDay (fullYear year) month dt * msPerDay)"

text \<open>The getters; \<open>None\<close> is NaN, the answer of every getter of the Invalid Date.\<close>

fun getFullYear :: "jsdate \<Rightarrow> int option" where
  "getFullYear InvalidDate = None"
| "getFullYear (Date t) = Some (YearFromDay (Day t))"

fun getMonth :: "jsdate \<Rightarrow> int option" where
  "getMonth InvalidDate = None"
| "getMonth (Date t) = Some (MonthFromDay (Day t))"

fun getDate :: "jsdate \<Rightarrow> int option" where
  "getDate InvalidDate = None"
| "getDate (Date t) = Some (DateFromDay (Day t))"

fun getDay :: "jsdate \<Rightarrow> int option" where
  "getDay InvalidDate = None"
| "getDay (Date t) = Some (WeekDay (Day t))"

fun getHours :: "jsdate \<Rightarrow> int option" where
  "getHours InvalidDate = None"
| "getHours (Date t) = Some ((t div 3600000) mod 24)"

fun getMinutes :: "jsdate \<Rightarrow> int option" where
  "getMinutes InvalidDate = None"
| "getMinutes (Date t) = Some ((t div 60000) mod 60)"

fun getSeconds :: "jsdate \<Rightarrow> int option" where
  "getSeconds InvalidDate = None"
| "getSeconds (Date t) = Some ((t div 1000) mod 60)"

text \<open>\<^verbatim>\<open>new Date(a, b, c)\<close> on getter results: a NaN argument gives the Invalid Date.\<close>

fun newDateOpt :: "int option \<Rightarrow> int option \<Rightarrow> int option \<Rightarrow> jsdate" where
  "newDateOpt (Some y) (Some m) (Some d) = newDate y m d"
| "newDateOpt _ _ _ = InvalidDate"

text \<open>\<^verbatim>\<open>a - b\<close> on dates: the difference of the time values, NaN if one is invalid.\<close>

fun dateDiff :: "jsdate \<Rightarrow> jsdate \<Rightarrow> int option" where
  "dateDiff (Date a) (Date b) = Some (a - b)"
| "dateDiff _ _ = None"

text \<open>
  \<^verbatim>\<open>d.setDate(d.getDate() + k)\<close>: the same time of day on the day MakeDay gives for the
  shifted day of the month.
\<close>

fun addDate :: "jsdate \<Rightarrow> int \<Rightarrow> jsdate" where
  "addDate InvalidDate k = InvalidDate"
| "addDate (Date t) k =
     Date (MakeDay (YearFromDay (Day t)) (MonthFromDay (Day t)) (DateFromDay (Day t) + k) * msPerDay
           + t mod msPerDay)"

section \<open>Events and their dates\<close>

text \<open>
  \<^verbatim>\<open>event.start\<close> and \<^verbatim>\<open>event.end\<close> arrive as JSON values. What the code does with one
  depends on three cases only: it is falsy (null, missing, the empty string); it is a
  string that \<^verbatim>\<open>new Date(s)\<close> cannot parse, which yields the Invalid Date and does not
  throw; or it parses, here to the local time value carried by \<open>Iso\<close>.
\<close>

datatype isoString = Missing | Unparseable | Iso int

record event =
  ev_start :: isoString
  ev_end :: isoString
  all_day :: bool
  summary :: string
  calendar_name :: string

text \<open>
  \<^verbatim>\<open>parseEventDate\<close>. \<^verbatim>\<open>new Date()\<close> is the current instant, the parameter \<open>now\<close>; all
  the calls of one layout pass read the same instant. The \<^verbatim>\<open>catch\<close> branch is never taken,
  since the constructor does not throw.
\<close>

fun parseEventDate :: "int \<Rightarrow> isoString \<Rightarrow> jsdate" where
  "parseEventDate now Missing = Date now"
| "parseEventDate now Unparseable = InvalidDate"
| "parseEventDate now (Iso t) = Date t"

text \<open>\<^verbatim>\<open>getEventDurationDays\<close>; \<open>None\<close> is the number NaN.\<close>

definition startOfDay :: "jsdate \<Rightarrow> jsdate" where
  "startOfDay d = newDateOpt (getFullYear d) (getMonth d) (getDate d)"

definition getEventDurationDays :: "int \<Rightarrow> event \<Rightarrow> int option" where
  "getEventDurationDays now ev =
     (let start = parseEventDate now (ev_start ev);
          end' = parseEventDate now (ev_end ev);
          startDay = startOfDay start;
          endDay = startOfDay end'
      in case dateDiff endDay startDay of
           None \<Rightarrow> None
         | Some diffMs \<Rightarrow>
             (let diffDays = diffMs div (1000 * 60 * 60 * 24)
              in if all_day ev \<and> diffDays > 0 then Some diffDays
                 else Some (max 1 diffDays)))"

definition isMultiDayEvent :: "int \<Rightarrow> event \<Rightarrow> bool" where
  "isMultiDayEvent now ev =
     (case getEventDurationDays now ev of None \<Rightarrow> False | Some n \<Rightarrow> n > 1)"

section \<open>Organising the events on the grid\<close>

text \<open>
  \<^verbatim>\<open>getDateKey\<close> builds the string year-month-day with month and day padded to two
  digits. Two such strings are equal exactly when their three numbers are, so the key is
  modelled by the three numbers; \<open>NaNKey\<close> is the string that the Invalid Date gives.
\<close>

datatype datekey = NaNKey | Key int int int

fun getDateKey :: "jsdate \<Rightarrow> datekey" where
  "getDateKey InvalidDate = NaNKey"
| "getDateKey (Date t) =
     Key (YearFromDay (Day t)) (MonthFromDay (Day t) + 1) (DateFromDay (Day t))"

record segment =
  seg_event :: event
  gridColumn :: int
  gridRow :: int
  span :: int
  eventRow :: nat
  showLeftArrow :: bool
  showRightArrow :: bool

text \<open>
  The state of the loop over the events. A row of \<^verbatim>\<open>globalRowOccupancy\<close> is an array of
  flags that is only ever read and written by cell index, so it is the set of the indices
  whose flag is set. \<open>rowLog\<close> records the line that the loop prints for each event it
  places: the event and the row it was given.
\<close>

record layout =
  globalRowOccupancy :: "int set list"
  multiDayEvents :: "segment list"
  singleDayEvents :: "datekey \<rightharpoonup> event list"
  rowLog :: "(event \<times> nat) list"

definition initSingleDayEvents :: "jsdate list \<Rightarrow> (datekey \<rightharpoonup> event list)" where
  "initSingleDayEvents gridDates = fold (\<lambda>date m. m(getDateKey date \<mapsto> [])) gridDates Map.empty"

definition dateToIndex :: "jsdate list \<Rightarrow> (datekey \<rightharpoonup> nat)" where
  "dateToIndex gridDates =
     fold (\<lambda>(index, date) m. m(getDateKey date \<mapsto> index)) (enumerate 0 gridDates) Map.empty"

text \<open>
  The comparator of the sort, \<^verbatim>\<open>dateA - dateB\<close>, asks for a swap when it is positive; NaN
  counts as 0. The sort of the host language is stable, which for a consistent comparator
  fixes the result: it is what inserting from the right computes.
\<close>

definition startsAfter :: "int \<Rightarrow> event \<Rightarrow> event \<Rightarrow> bool" where
  "startsAfter now a b =
     (case dateDiff (parseEventDate now (ev_start a)) (parseEventDate now (ev_start b)) of
        None \<Rightarrow> False | Some v \<Rightarrow> v > 0)"

fun insertSorted :: "int \<Rightarrow> event \<Rightarrow> event list \<Rightarrow> event list" where
  "insertSorted now x [] = [x]"
| "insertSorted now x (y # ys) =
     (if startsAfter now x y then y # insertSorted now x ys else x # y # ys)"

definition sortedEvents :: "int \<Rightarrow> event list \<Rightarrow> event list" where
  "sortedEvents now events = foldr (insertSorted now) events []"

text \<open>The end date of a spanning event, moved back a day for a timed event ending at midnight.\<close>

definition endsAtMidnight :: "jsdate \<Rightarrow> bool" where
  "endsAtMidnight d = (getHours d = Some 0 \<and> getMinutes d = Some 0 \<and> getSeconds d = Some 0)"

definition adjustedEndDate :: "int \<Rightarrow> event \<Rightarrow> jsdate" where
  "adjustedEndDate now ev =
     (let endDate = parseEventDate now (ev_end ev)
      in if \<not> all_day ev \<and> endsAtMidnight endDate then addDate endDate (- 1) else endDate)"

definition firstWeekIndex :: "nat option \<Rightarrow> int" where
  "firstWeekIndex startIndex = (case startIndex of Some i \<Rightarrow> int i div 7 | None \<Rightarrow> 0)"

definition lastWeekIndex :: "jsdate list \<Rightarrow> nat option \<Rightarrow> int" where
  "lastWeekIndex gridDates endIndex =
     (case endIndex of Some j \<Rightarrow> int j div 7 | None \<Rightarrow> (int (length gridDates) - 1) div 7)"

definition colStartOf :: "nat option \<Rightarrow> int \<Rightarrow> int \<Rightarrow> int" where
  "colStartOf startIndex firstWeek weekIdx =
     (case startIndex of
        Some i \<Rightarrow> if weekIdx = firstWeek then int i mod 7 else 0
      | None \<Rightarrow> 0)"

text \<open>The cells of one week, first loop over the weeks.\<close>

definition weekCells :: "bool \<Rightarrow> nat option \<Rightarrow> nat option \<Rightarrow> int \<Rightarrow> int \<Rightarrow> int \<Rightarrow> int list" where
  "weekCells allDay startIndex endIndex firstWeek lastWeek weekIdx =
     (let colStart = colStartOf startIndex firstWeek weekIdx;
          colEnd = (case endIndex of
                      Some j \<Rightarrow>
                        if weekIdx = lastWeek
                        then (let endCol = int j mod 7 in if allDay then endCol - 1 else endCol)
                        else 6
                    | None \<Rightarrow> 6)
      in if colEnd \<ge> colStart then map (\<lambda>col. weekIdx * 7 + col) [colStart..colEnd] else [])"

definition occupiedCells :: "jsdate list \<Rightarrow> bool \<Rightarrow> nat option \<Rightarrow> nat option \<Rightarrow> int list" where
  "occupiedCells gridDates allDay startIndex endIndex =
     (let firstWeek = firstWeekIndex startIndex; lastWeek = lastWeekIndex gridDates endIndex
      in concat (map (weekCells allDay startIndex endIndex firstWeek lastWeek) [firstWeek..lastWeek]))"

text \<open>The search for a row, from row \<open>rowIdx\<close> on; \<open>None\<close> when no existing row fits.\<close>

fun findRow :: "int set list \<Rightarrow> int list \<Rightarrow> nat \<Rightarrow> nat option" where
  "findRow [] cells rowIdx = None"
| "findRow (row # rows) cells rowIdx =
     (if list_all (\<lambda>cellIndex. cellIndex \<notin> row) cells then Some rowIdx
      else findRow rows cells (Suc rowIdx))"

text \<open>The segment of one week, second loop over the weeks; \<open>None\<close> when it is skipped.\<close>

definition weekSegment ::
  "event \<Rightarrow> nat option \<Rightarrow> nat option \<Rightarrow> int \<Rightarrow> int \<Rightarrow> nat \<Rightarrow> int \<Rightarrow> segment option" where
  "weekSegment ev startIndex endIndex firstWeek lastWeek eventRow' weekIdx =
     (let colStart = colStartOf startIndex firstWeek weekIdx;
          span' = (case endIndex of
                     Some j \<Rightarrow>
                       if weekIdx = lastWeek
                       then (let endCol = int j mod 7
                             in if all_day ev then endCol - colStart else endCol - colStart + 1)
                       else 7 - colStart
                   | None \<Rightarrow> 7 - colStart)
      in if span' \<le> 0 then None
         else Some \<lparr>seg_event = ev, gridColumn = colStart, gridRow = weekIdx, span = span',
                    eventRow = eventRow',
                    showLeftArrow = ((weekIdx = firstWeek \<and> startIndex = None) \<or> weekIdx > firstWeek),
                    showRightArrow = ((weekIdx = lastWeek \<and> endIndex = None) \<or> weekIdx < lastWeek)\<rparr>)"

text \<open>The row of an event: the first row that fits, or a new empty row at the end.\<close>

definition chooseRow :: "int set list \<Rightarrow> int list \<Rightarrow> nat \<times> int set list" where
  "chooseRow occ cells =
     (case findRow occ cells 0 of
        Some rowIdx \<Rightarrow> (rowIdx, occ)
      | None \<Rightarrow> (length occ, occ @ [{}]))"

definition markCells :: "int set list \<Rightarrow> nat \<Rightarrow> int list \<Rightarrow> int set list" where
  "markCells occ eventRow' cells = occ[eventRow' := occ ! eventRow' \<union> set cells]"

definition spanSegments ::
  "event \<Rightarrow> jsdate list \<Rightarrow> nat option \<Rightarrow> nat option \<Rightarrow> nat \<Rightarrow> segment list" where
  "spanSegments ev gridDates startIndex endIndex eventRow' =
     (let firstWeek = firstWeekIndex startIndex; lastWeek = lastWeekIndex gridDates endIndex
      in List.map_filter (weekSegment ev startIndex endIndex firstWeek lastWeek eventRow')
           [firstWeek..lastWeek])"

definition startIndexOf :: "int \<Rightarrow> jsdate list \<Rightarrow> event \<Rightarrow> nat option" where
  "startIndexOf now gridDates ev =
     dateToIndex gridDates (getDateKey (parseEventDate now (ev_start ev)))"

definition endIndexOf :: "int \<Rightarrow> jsdate list \<Rightarrow> event \<Rightarrow> nat option" where
  "endIndexOf now gridDates ev = dateToIndex gridDates (getDateKey (adjustedEndDate now ev))"

definition eventCells :: "int \<Rightarrow> jsdate list \<Rightarrow> event \<Rightarrow> int list" where
  "eventCells now gridDates ev =
     occupiedCells gridDates (all_day ev) (startIndexOf now gridDates ev)
       (endIndexOf now gridDates ev)"

text \<open>The branch of the loop body for a multi-day or all-day event.\<close>

definition placeSpanning :: "int \<Rightarrow> jsdate list \<Rightarrow> layout \<Rightarrow> event \<Rightarrow> layout" where
  "placeSpanning now gridDates st ev =
     (let startIndex = startIndexOf now gridDates ev;
          endIndex = endIndexOf now gridDates ev
      in if startIndex \<noteq> None \<or> (endIndex \<noteq> None \<and> startIndex = None) then
           (let cells = eventCells now gridDates ev;
                (eventRow', occ) = chooseRow (globalRowOccupancy st) cells
            in st\<lparr>globalRowOccupancy := markCells occ eventRow' cells,
                  multiDayEvents :=
                    multiDayEvents st @ spanSegments ev gridDates startIndex endIndex eventRow',
                  rowLog := rowLog st @ [(ev, eventRow')]\<rparr>)
         else st)"

definition placeEvent :: "int \<Rightarrow> jsdate list \<Rightarrow> event \<Rightarrow> layout \<Rightarrow> layout" where
  "placeEvent now gridDates ev st =
     (if isMultiDayEvent now ev \<or> all_day ev then placeSpanning now gridDates st ev
      else
        (let dateKey = getDateKey (parseEventDate now (ev_start ev))
         in case singleDayEvents st dateKey of
              Some bucket \<Rightarrow> st\<lparr>singleDayEvents := (singleDayEvents st)(dateKey \<mapsto> bucket @ [ev])\<rparr>
            | None \<Rightarrow> st))"

text \<open>\<^verbatim>\<open>organizeEventsForGrid\<close>; \<open>None\<close> is a missing (falsy) event list.\<close>

definition initLayout :: "jsdate list \<Rightarrow> layout" where
  "initLayout gridDates =
     \<lparr>globalRowOccupancy = [], multiDayEvents = [],
      singleDayEvents = initSingleDayEvents gridDates, rowLog = []\<rparr>"

definition organizeEventsForGrid :: "int \<Rightarrow> event list option \<Rightarrow> jsdate list \<Rightarrow> layout" where
  "organizeEventsForGrid now events gridDates =
     (case events of
        None \<Rightarrow> initLayout gridDates
      | Some evs \<Rightarrow> fold (placeEvent now gridDates) (sortedEvents now evs) (initLayout gridDates))"

section \<open>Display rows and vertical position\<close>

text \<open>Index of a value in a list, as the map from global row to display row gives it.\<close>

fun indexOf :: "nat list \<Rightarrow> nat \<Rightarrow> nat" where
  "indexOf [] x = 0"
| "indexOf (y # ys) x = (if x = y then 0 else Suc (indexOf ys x))"

text \<open>The keys of \<^verbatim>\<open>eventsByWeek\<close> in the order of their first insertion.\<close>

definition weeksOf :: "segment list \<Rightarrow> int list" where
  "weeksOf segs = rev (remdups (rev (map gridRow segs)))"

definition uniqueEventRows :: "segment list \<Rightarrow> nat list" where
  "uniqueEventRows weekEvents = sort (remdups (map eventRow weekEvents))"

definition displayRow :: "segment list \<Rightarrow> segment \<Rightarrow> nat" where
  "displayRow weekEvents e = indexOf (uniqueEventRows weekEvents) (eventRow e)"

definition countSegment :: "nat \<Rightarrow> segment list \<Rightarrow> segment \<Rightarrow> (int \<rightharpoonup> nat) \<Rightarrow> (int \<rightharpoonup> nat)" where
  "countSegment n weekEvents e counts =
     fold (\<lambda>col m.
             (let cellIndex = gridRow e * 7 + col
              in if cellIndex < int n
                 then m(cellIndex \<mapsto>
                        max (case m cellIndex of Some c \<Rightarrow> c | None \<Rightarrow> 0)
                            (displayRow weekEvents e + 1))
                 else m))
          [gridColumn e..gridColumn e + span e - 1] counts"

definition calculateDisplayRows :: "segment list \<Rightarrow> jsdate list \<Rightarrow> (int \<rightharpoonup> nat)" where
  "calculateDisplayRows segs gridDates =
     (let n = length gridDates;
          init = fold (\<lambda>index m. m(int index \<mapsto> 0)) [0..<n] Map.empty
      in fold (\<lambda>week counts.
                 (let weekEvents = filter (\<lambda>e. gridRow e = week) segs
                  in fold (countSegment n weekEvents) weekEvents counts))
              (weeksOf segs) init)"


definition eventRowHeightPx :: int where
  "eventRowHeightPx = 22"


section \<open>The overflow pass of the resize callback\<close>

text \<open>
  For one cell: the available height (the height of a week row less the day number), the
  number of display rows of spanning events and the number of timed events of the day.
  The heights are reals here; the source computes them in double precision.
\<close>

definition timedEventHeightPx :: int where
  "timedEventHeightPx = 18"

definition moreIndicatorHeightPx :: int where
  "moreIndicatorHeightPx = 18"

record cellOverflow =
  maxVisibleSpanning :: int
  visibleTimed :: int
  totalHidden :: int
  moreShown :: bool

text \<open>First pass: the limit of the cell.\<close>

definition cellLimit :: "real \<Rightarrow> nat \<Rightarrow> nat \<Rightarrow> int" where
  "cellLimit availableHeight totalSpanningInCell timedCount =
     (let spaceNeededForSpanning = int totalSpanningInCell * eventRowHeightPx;
          spaceNeededForTimed = int timedCount * timedEventHeightPx;
          totalNeeded = spaceNeededForSpanning + spaceNeededForTimed
      in if real_of_int totalNeeded \<le> availableHeight then int totalSpanningInCell
         else
           (let availableWithIndicator = availableHeight - real_of_int moreIndicatorHeightPx;
                reservedForTimed = (if timedCount > 0 then timedEventHeightPx else 0)
            in min (max 1 \<lfloor>(availableWithIndicator - real_of_int reservedForTimed)
                              / real_of_int eventRowHeightPx\<rfloor>)
                   (int totalSpanningInCell)))"

text \<open>Third pass: the timed events shown and the count of the indicator.\<close>

definition resolveCell :: "real \<Rightarrow> nat \<Rightarrow> nat \<Rightarrow> cellOverflow" where
  "resolveCell availableHeight totalSpanningInCell timedCount =
     (let maxVis = cellLimit availableHeight totalSpanningInCell timedCount;
          usedHeight = maxVis * eventRowHeightPx;
          remainingHeight = availableHeight - real_of_int usedHeight
             - real_of_int (if int totalSpanningInCell > maxVis then moreIndicatorHeightPx else 0);
          maxVisibleTimed = max 0 \<lfloor>remainingHeight / real_of_int timedEventHeightPx\<rfloor>;
          visTimed = min (int timedCount) maxVisibleTimed;
          hiddenSpanning = max 0 (int totalSpanningInCell - maxVis);
          hiddenTimed = max 0 (int timedCount - visTimed);
          hidden = hiddenSpanning + hiddenTimed
      in \<lparr>maxVisibleSpanning = maxVis, visibleTimed = visTimed, totalHidden = hidden,
          moreShown = (hidden > 0)\<rparr>)"

text \<open>
  The counts of a cell as the callback reads them: \<^verbatim>\<open>cellDisplayRowCount.get(index) || 0\<close>
  and the length of \<^verbatim>\<open>singleDayEvents.get(dateKey) || []\<close>.
\<close>

definition cellSpanningCount :: "(int \<rightharpoonup> nat) \<Rightarrow> nat \<Rightarrow> nat" where
  "cellSpanningCount counts index = (case counts (int index) of Some c \<Rightarrow> c | None \<Rightarrow> 0)"

definition cellTimedCount :: "(datekey \<rightharpoonup> event list) \<Rightarrow> jsdate \<Rightarrow> nat" where
  "cellTimedCount singles date =
     (case singles (getDateKey date) of Some bucket \<Rightarrow> length bucket | None \<Rightarrow> 0)"

text \<open>
  First pass over the grid: \<^verbatim>\<open>cellLimits\<close> maps every index of the grid, in order, to the
  limit of its cell; it is the list of the limits. A lookup outside the grid gives
  \<^verbatim>\<open>undefined || 0\<close>.
\<close>

definition cellLimits ::
  "real \<Rightarrow> jsdate list \<Rightarrow> (datekey \<rightharpoonup> event list) \<Rightarrow> (int \<rightharpoonup> nat) \<Rightarrow> int list" where
  "cellLimits availableHeight gridDates singles counts =
     map (\<lambda>(index, date).
            cellLimit availableHeight (cellSpanningCount counts index) (cellTimedCount singles date))
         (enumerate 0 gridDates)"

definition limitAt :: "int list \<Rightarrow> int \<Rightarrow> int" where
  "limitAt limits cellIndex =
     (if 0 \<le> cellIndex \<and> cellIndex < int (length limits) then limits ! nat cellIndex else 0)"

text \<open>
  Second pass: a spanning bar is displayed when its global row is below the limit of any
  of the cells it spans.
\<close>

definition shouldBeVisible :: "int list \<Rightarrow> segment \<Rightarrow> bool" where
  "shouldBeVisible limits e =
     list_ex (\<lambda>col. int (eventRow e) < limitAt limits (gridRow e * 7 + col))
       [gridColumn e..gridColumn e + span e - 1]"

text \<open>
  The sum that the first and third pass arrive at for one cell: its limit of spanning rows
  plus the timed events it displays. It is the cell's own account, not the number of bars
  displayed across the cell, which the second pass decides.
\<close>

definition limitPlusTimed :: "real \<Rightarrow> nat \<Rightarrow> nat \<Rightarrow> int" where
  "limitPlusTimed a L T =
     maxVisibleSpanning (resolveCell a L T) + visibleTimed (resolveCell a L T)"

section \<open>Building the grid of dates\<close>

text \<open>
  The dates built here come from \<^verbatim>\<open>new Date(year, month, day)\<close> on integers and are
  always valid, so their getters are read on the day number directly.
\<close>

definition getFirstDayOfMonth :: "int \<Rightarrow> int \<Rightarrow> int" where
  "getFirstDayOfMonth year month =
     (let day = WeekDay (MakeDay (fullYear year) month 1)
      in if day = 0 then 6 else day - 1)"

definition getDaysInMonth :: "int \<Rightarrow> int \<Rightarrow> int" where
  "getDaysInMonth year month = DateFromDay (MakeDay (fullYear year) (month + 1) 0)"

definition gridDatesOf :: "int \<Rightarrow> int \<Rightarrow> jsdate list" where
  "gridDatesOf currentYear currentMonth =
     (let firstDay = getFirstDayOfMonth currentYear currentMonth;
          daysInMonth = getDaysInMonth currentYear currentMonth;
          daysInPrevMonth = getDaysInMonth currentYear (currentMonth - 1);
          prev = map (\<lambda>i. newDate currentYear (currentMonth - 1) (daysInPrevMonth - i))
                     (rev [0..firstDay - 1]);
          cur = map (\<lambda>day. newDate currentYear currentMonth day) [1..daysInMonth];
          totalCells = int (length (prev @ cur));
          remainingCells = (if totalCells mod 7 = 0 then 0 else 7 - totalCells mod 7);
          next = map (\<lambda>day. newDate currentYear (currentMonth + 1) day) [1..remainingCells]
      in prev @ cur @ next)"

section \<open>Predicates used in the statements\<close>

text \<open>An event is classified as single-day when it is neither multi-day nor all-day.\<close>

definition single :: "int \<Rightarrow> event \<Rightarrow> bool" where
  "single now ev \<longleftrightarrow> \<not> isMultiDayEvent now ev \<and> \<not> all_day ev"

text \<open>
  A spanning event passes the guard of the loop body when the key of its start date or of
  its adjusted end date is the key of a date of the grid.
\<close>

definition placed :: "int \<Rightarrow> jsdate list \<Rightarrow> event \<Rightarrow> bool" where
  "placed now gridDates ev \<longleftrightarrow>
     (isMultiDayEvent now ev \<or> all_day ev) \<and>
     (getDateKey (parseEventDate now (ev_start ev)) \<in> getDateKey ` set gridDates
      \<or> getDateKey (adjustedEndDate now ev) \<in> getDateKey ` set gridDates)"

definition layoutInv :: "int \<Rightarrow> jsdate list \<Rightarrow> layout \<Rightarrow> bool" where
  "layoutInv now gridDates st \<longleftrightarrow>
     (\<forall>k b. singleDayEvents st k = Some b \<longrightarrow>
        k \<in> getDateKey ` set gridDates \<and>
        (\<forall>e \<in> set b. single now e \<and> getDateKey (parseEventDate now (ev_start e)) = k))
     \<and> (\<forall>s \<in> set (multiDayEvents st). placed now gridDates (seg_event s))"

text \<open>Two events overlap when they share a grid cell.\<close>

definition overlap :: "int list \<Rightarrow> int list \<Rightarrow> bool" where
  "overlap cs ds \<longleftrightarrow> set cs \<inter> set ds \<noteq> {}"

text \<open>The cells claimed in a row by the events logged so far.\<close>

definition rowCells :: "int \<Rightarrow> jsdate list \<Rightarrow> (event \<times> nat) list \<Rightarrow> nat \<Rightarrow> int set" where
  "rowCells now gridDates asg r = \<Union> {set (eventCells now gridDates e) | e. (e, r) \<in> set asg}"

text \<open>
  A log of row assignments is in order when each entry avoids the row of every earlier
  entry it overlaps, and every row below its own holds an earlier entry it overlaps.
\<close>

definition lanesOk :: "int \<Rightarrow> jsdate list \<Rightarrow> (event \<times> nat) list \<Rightarrow> bool" where
  "lanesOk now gridDates asg \<longleftrightarrow>
     (\<forall>j < length asg.
        (\<forall>i < j. overlap (eventCells now gridDates (fst (asg ! i)))
                         (eventCells now gridDates (fst (asg ! j)))
                 \<longrightarrow> snd (asg ! i) \<noteq> snd (asg ! j))
        \<and> (\<forall>r < snd (asg ! j).
              \<exists>i < j. snd (asg ! i) = r
                     \<and> overlap (eventCells now gridDates (fst (asg ! i)))
                               (eventCells now gridDates (fst (asg ! j)))))"

definition laneInv :: "int \<Rightarrow> jsdate list \<Rightarrow> layout \<Rightarrow> bool" where
  "laneInv now gridDates st \<longleftrightarrow>
     (\<forall>(e, r) \<in> set (rowLog st). r < length (globalRowOccupancy st))
     \<and> (\<forall>r < length (globalRowOccupancy st).
           globalRowOccupancy st ! r = rowCells now gridDates (rowLog st) r)
     \<and> lanesOk now gridDates (rowLog st)
     \<and> (\<forall>s \<in> set (multiDayEvents st). (seg_event s, eventRow s) \<in> set (rowLog st))"

text \<open>The start of an event as the comparator of the sort reads it, when it is a valid date.\<close>

definition startTime :: "int \<Rightarrow> event \<Rightarrow> int" where
  "startTime now ev = (case parseEventDate now (ev_start ev) of Date t \<Rightarrow> t | InvalidDate \<Rightarrow> 0)"

text \<open>The length of a month (0 = January) and the local midnight of a day.\<close>

definition daysIn :: "bool \<Rightarrow> int \<Rightarrow> int" where
  "daysIn leap mn = monthStart leap (mn + 1) - monthStart leap mn"

definition dayDate :: "int \<Rightarrow> jsdate" where
  "dayDate d = Date (d * msPerDay)"

text \<open>
  The items displayed in the cell of a grid index at an available height, for the layout
  of \<^verbatim>\<open>organizeEventsForGrid\<close> and the display rows computed from it: the bars of the
  segments that span the cell and are displayed by the second pass, plus the timed events
  that the third pass displays in the cell.
\<close>

definition segmentCovers :: "segment \<Rightarrow> int \<Rightarrow> bool" where
  "segmentCovers e cellIndex \<longleftrightarrow>
     cellIndex \<in> set (map (\<lambda>col. gridRow e * 7 + col) [gridColumn e..gridColumn e + span e - 1])"

definition itemsShownInCell :: "real \<Rightarrow> jsdate list \<Rightarrow> layout \<Rightarrow> nat \<Rightarrow> int" where
  "itemsShownInCell availableHeight gridDates lay index =
     (let counts = calculateDisplayRows (multiDayEvents lay) gridDates;
          limits = cellLimits availableHeight gridDates (singleDayEvents lay) counts;
          bars = filter (\<lambda>e. segmentCovers e (int index) \<and> shouldBeVisible limits e)
                   (multiDayEvents lay)
      in int (length bars)
         + visibleTimed (resolveCell availableHeight (cellSpanningCount counts index)
              (cellTimedCount (singleDayEvents lay) (gridDates ! index))))"

section \<open>Properties of the duration\<close>

lemma startOfDay_Date: "\<exists>u. startOfDay (Date t) = Date u"
  by (simp add: startOfDay_def newDate_def)

text \<open>
  C8. An event with parseable dates whose end lies before its start is classified without
  failure: the duration is a number (not NaN), and it is at least 1.
\<close>

theorem duration_clamped:
  assumes "ev_start ev = Iso s" and "ev_end ev = Iso e" and "e < s"
  shows "\<exists>n. getEventDurationDays now ev = Some n \<and> 1 \<le> n"
proof -
  obtain u where u: "startOfDay (Date s) = Date u"
    using startOfDay_Date by blast
  obtain v where v: "startOfDay (Date e) = Date v"
    using startOfDay_Date by blast
  show ?thesis
    using assms u v by (simp add: getEventDurationDays_def Let_def)
qed

theorem duration_clamped_witness:
  "\<exists>n. getEventDurationDays 0
         \<lparr>ev_start = Iso 172800000, ev_end = Iso 0, all_day = True,
            summary = ''trip'', calendar_name = ''''\<rparr> = Some n \<and> 1 \<le> n"
  by (rule duration_clamped [where s = 172800000 and e = 0]) simp_all

section \<open>Properties of the overflow pass\<close>

lemma maxVisibleSpanning_resolveCell:
  "maxVisibleSpanning (resolveCell a L T) = cellLimit a L T"
  by (simp add: resolveCell_def Let_def)

lemma visibleTimed_resolveCell:
  "visibleTimed (resolveCell a L T) =
     min (int T) (max 0 \<lfloor>(a - real_of_int (cellLimit a L T * 22)
        - real_of_int (if int L > cellLimit a L T then 18 else 0)) / 18\<rfloor>)"
  by (simp add: resolveCell_def Let_def eventRowHeightPx_def timedEventHeightPx_def
      moreIndicatorHeightPx_def)

lemma totalHidden_resolveCell:
  "totalHidden (resolveCell a L T) =
     max 0 (int L - cellLimit a L T) + max 0 (int T - visibleTimed (resolveCell a L T))"
  by (simp add: resolveCell_def Let_def)

lemma moreShown_resolveCell:
  "moreShown (resolveCell a L T) = (totalHidden (resolveCell a L T) > 0)"
  by (simp add: resolveCell_def Let_def)

lemma cellLimit_fits:
  "real_of_int (int L * 22 + int T * 18) \<le> a \<Longrightarrow> cellLimit a L T = int L"
  by (simp add: cellLimit_def Let_def eventRowHeightPx_def timedEventHeightPx_def)

lemma cellLimit_tight:
  "\<not> real_of_int (int L * 22 + int T * 18) \<le> a \<Longrightarrow>
   cellLimit a L T =
     min (max 1 \<lfloor>(a - 18 - real_of_int (if T > 0 then 18 else 0)) / 22\<rfloor>) (int L)"
  by (simp add: cellLimit_def Let_def eventRowHeightPx_def timedEventHeightPx_def
      moreIndicatorHeightPx_def)

lemma cellLimit_le: "cellLimit a L T \<le> int L"
  by (cases "real_of_int (int L * 22 + int T * 18) \<le> a")
     (simp_all add: cellLimit_fits cellLimit_tight del: of_int_add of_int_mult)

lemma visibleTimed_le: "visibleTimed (resolveCell a L T) \<le> int T"
  by (simp add: visibleTimed_resolveCell)

lemma limitPlusTimed_le: "limitPlusTimed a L T \<le> int L + int T"
  unfolding limitPlusTimed_def maxVisibleSpanning_resolveCell
  using cellLimit_le [of a L T] visibleTimed_le [of a L T] by linarith

lemma limitPlusTimed_fits:
  assumes "real_of_int (int L * 22 + int T * 18) \<le> a"
  shows "limitPlusTimed a L T = int L + int T"
proof -
  have m: "cellLimit a L T = int L"
    using assms by (rule cellLimit_fits)
  have "real_of_int (int T) \<le> (a - real_of_int (int L * 22)) / 18"
    using assms by simp
  then have "int T \<le> \<lfloor>(a - real_of_int (int L * 22)) / 18\<rfloor>"
    by (simp only: le_floor_iff)
  then show ?thesis
    unfolding limitPlusTimed_def maxVisibleSpanning_resolveCell visibleTimed_resolveCell m
    by simp
qed

text \<open>
  When not everything fits at the larger height: the limit of spanning rows can only
  grow with the height, and when it grows, the timed events lose at most one line (there
  were at most two, and at least one remains).
\<close>

lemma limitPlusTimed_tight_mono:
  assumes ab: "a \<le> b" and nb: "\<not> real_of_int (int L * 22 + int T * 18) \<le> b"
  shows "limitPlusTimed a L T \<le> limitPlusTimed b L T"
proof -
  define r :: int where "r = (if T > 0 then 18 else 0)"
  define fa fb where "fa = \<lfloor>(a - 18 - real_of_int r) / 22\<rfloor>"
    and "fb = \<lfloor>(b - 18 - real_of_int r) / 22\<rfloor>"
  define ma mb where "ma = cellLimit a L T" and "mb = cellLimit b L T"
  define ra rb
    where "ra = a - real_of_int (ma * 22) - real_of_int (if int L > ma then 18 else 0)"
      and "rb = b - real_of_int (mb * 22) - real_of_int (if int L > mb then 18 else 0)"
  define va vb where "va = min (int T) (max 0 \<lfloor>ra / 18\<rfloor>)"
    and "vb = min (int T) (max 0 \<lfloor>rb / 18\<rfloor>)"
  have na: "\<not> real_of_int (int L * 22 + int T * 18) \<le> a"
    using ab nb by linarith
  have ma: "ma = min (max 1 fa) (int L)"
    unfolding ma_def fa_def r_def using na by (rule cellLimit_tight)
  have mb: "mb = min (max 1 fb) (int L)"
    unfolding mb_def fb_def r_def using nb by (rule cellLimit_tight)
  have fab: "fa \<le> fb"
    unfolding fa_def fb_def using ab by (intro floor_mono divide_right_mono) simp_all
  have mab: "ma \<le> mb"
    unfolding ma mb using fab by linarith
  have sa: "limitPlusTimed a L T = ma + va"
    by (simp add: limitPlusTimed_def maxVisibleSpanning_resolveCell visibleTimed_resolveCell
        ma_def va_def ra_def)
  have sb: "limitPlusTimed b L T = mb + vb"
    by (simp add: limitPlusTimed_def maxVisibleSpanning_resolveCell visibleTimed_resolveCell
        mb_def vb_def rb_def)
  show ?thesis
  proof (cases "ma = mb")
    case True
    then have "ra \<le> rb"
      unfolding ra_def rb_def using ab by simp
    then have "\<lfloor>ra / 18\<rfloor> \<le> \<lfloor>rb / 18\<rfloor>"
      by (intro floor_mono divide_right_mono) simp_all
    then have "va \<le> vb"
      unfolding va_def vb_def by linarith
    with True sa sb show ?thesis by simp
  next
    case False
    with mab have lt: "ma < mb" by simp
    have L1: "1 \<le> ma" "ma < int L" "2 \<le> mb"
      using lt ma mb by linarith+
    have "ma = max 1 fa"
      using L1 ma by linarith
    then have "fa < ma + 1"
      by linarith
    then have "(a - 18 - real_of_int r) / 22 < real_of_int (ma + 1)"
      unfolding fa_def by (simp only: floor_less_iff)
    then have ra_lt: "ra < 22 + real_of_int r"
      unfolding ra_def using L1 by (simp add: field_simps)
    have "mb \<le> fb"
      using L1 mb by linarith
    then have "real_of_int mb \<le> (b - 18 - real_of_int r) / 22"
      unfolding fb_def by (simp only: le_floor_iff)
    then have rb_ge: "real_of_int r \<le> rb"
      unfolding rb_def by (simp add: field_simps)
    show ?thesis
    proof (cases "T > 0")
      case False
      then have "va = 0" "vb = 0"
        by (simp_all add: va_def vb_def)
      with sa sb mab show ?thesis by simp
    next
      case True
      then have r: "r = 18" by (simp add: r_def)
      have "ra / 18 < real_of_int 3"
        using ra_lt r by simp
      then have "\<lfloor>ra / 18\<rfloor> < 3"
        by (simp only: floor_less_iff)
      then have va2: "va \<le> 2"
        unfolding va_def by linarith
      have "real_of_int 1 \<le> rb / 18"
        using rb_ge r by simp
      then have "1 \<le> \<lfloor>rb / 18\<rfloor>"
        by (simp only: le_floor_iff)
      then have vb1: "1 \<le> vb"
        unfolding vb_def using True by linarith
      from va2 vb1 lt sa sb show ?thesis by linarith
    qed
  qed
qed

lemma cellLimit_mono:
  assumes "a \<le> b"
  shows "cellLimit a L T \<le> cellLimit b L T"
proof (cases "real_of_int (int L * 22 + int T * 18) \<le> b")
  case True
  then show ?thesis
    using cellLimit_le [of a L T] by (simp add: cellLimit_fits)
next
  case False
  with assms have na: "\<not> real_of_int (int L * 22 + int T * 18) \<le> a"
    by linarith
  have "\<lfloor>(a - 18 - real_of_int (if T > 0 then 18 else 0)) / 22\<rfloor>
      \<le> \<lfloor>(b - 18 - real_of_int (if T > 0 then 18 else 0)) / 22\<rfloor>"
    using assms by (intro floor_mono divide_right_mono) simp_all
  then show ?thesis
    unfolding cellLimit_tight [OF False] cellLimit_tight [OF na] by linarith
qed

lemma limitAt_mono:
  assumes "a \<le> b"
  shows "limitAt (cellLimits a g singles counts) k \<le> limitAt (cellLimits b g singles counts) k"
proof (cases "0 \<le> k \<and> k < int (length g)")
  case True
  then have k: "nat k < length g" by linarith
  have "cellLimits h g singles counts ! nat k =
      cellLimit h (cellSpanningCount counts (nat k)) (cellTimedCount singles (g ! nat k))" for h
    using k by (simp add: cellLimits_def nth_enumerate_eq)
  with True cellLimit_mono [OF assms] show ?thesis
    by (simp add: limitAt_def cellLimits_def)
next
  case False
  then show ?thesis
    by (auto simp: limitAt_def cellLimits_def)
qed

lemma shouldBeVisible_mono:
  assumes "a \<le> b" and "shouldBeVisible (cellLimits a g singles counts) e"
  shows "shouldBeVisible (cellLimits b g singles counts) e"
proof -
  from assms(2) obtain col where col: "col \<in> set [gridColumn e..gridColumn e + span e - 1]"
    and lt: "int (eventRow e) < limitAt (cellLimits a g singles counts) (gridRow e * 7 + col)"
    unfolding shouldBeVisible_def list_ex_iff by blast
  from lt limitAt_mono [OF assms(1), of g singles counts "gridRow e * 7 + col"]
  have "int (eventRow e) < limitAt (cellLimits b g singles counts) (gridRow e * 7 + col)"
    by linarith
  with col show ?thesis
    unfolding shouldBeVisible_def list_ex_iff by blast
qed

text \<open>
  C7, as the code has it. For a fixed layout, a smaller available height never raises the
  limit of a cell, never raises the sum of the limit and the timed events displayed in the
  cell, and never displays a bar that the larger height hides: each of the three grows
  with the height.
\<close>

theorem overflow_account_monotonic:
  assumes "a \<le> b"
  shows "cellLimit a L T \<le> cellLimit b L T
       \<and> limitPlusTimed a L T \<le> limitPlusTimed b L T
       \<and> (shouldBeVisible (cellLimits a gridDates singles counts) e
            \<longrightarrow> shouldBeVisible (cellLimits b gridDates singles counts) e)"
proof (intro conjI impI)
  show "cellLimit a L T \<le> cellLimit b L T"
    using assms by (rule cellLimit_mono)
  show "limitPlusTimed a L T \<le> limitPlusTimed b L T"
  proof (cases "real_of_int (int L * 22 + int T * 18) \<le> b")
    case True
    show ?thesis
      using limitPlusTimed_le [of a L T] limitPlusTimed_fits [OF True] by simp
  next
    case False
    with assms show ?thesis by (rule limitPlusTimed_tight_mono)
  qed
  show "shouldBeVisible (cellLimits b gridDates singles counts) e"
    if "shouldBeVisible (cellLimits a gridDates singles counts) e"
    using assms that by (rule shouldBeVisible_mono)
qed

theorem overflow_account_monotonic_witness:
  "cellLimit 79 3 2 \<le> cellLimit 80 3 2
   \<and> limitPlusTimed 79 3 2 \<le> limitPlusTimed 80 3 2
   \<and> shouldBeVisible
        (cellLimits 80 [dayDate 20458, dayDate 20459] Map.empty (Map.empty(0 \<mapsto> 3, 1 \<mapsto> 2)))
        \<lparr>seg_event = \<lparr>ev_start = Iso (20458 * 86400000), ev_end = Iso (20460 * 86400000),
                        all_day = True, summary = ''E1'', calendar_name = ''''\<rparr>,
           gridColumn = 0, gridRow = 0, span = 2, eventRow = 1,
           showLeftArrow = False, showRightArrow = False\<rparr>"
proof -
  have le: "(79::real) \<le> 80"
    by simp
  have vis: "shouldBeVisible
        (cellLimits 79 [dayDate 20458, dayDate 20459] Map.empty (Map.empty(0 \<mapsto> 3, 1 \<mapsto> 2)))
        \<lparr>seg_event = \<lparr>ev_start = Iso (20458 * 86400000), ev_end = Iso (20460 * 86400000),
                        all_day = True, summary = ''E1'', calendar_name = ''''\<rparr>,
           gridColumn = 0, gridRow = 0, span = 2, eventRow = 1,
           showLeftArrow = False, showRightArrow = False\<rparr>"
    by (simp add: shouldBeVisible_def cellLimits_def limitAt_def cellLimit_def
        cellSpanningCount_def cellTimedCount_def eventRowHeightPx_def timedEventHeightPx_def
        moreIndicatorHeightPx_def enumerate_eq_zip upto.simps Let_def)
  from overflow_account_monotonic [OF le, of 3 2 "[dayDate 20458, dayDate 20459]" Map.empty
      "Map.empty(0 \<mapsto> 3, 1 \<mapsto> 2)"
      "\<lparr>seg_event = \<lparr>ev_start = Iso (20458 * 86400000), ev_end = Iso (20460 * 86400000),
                        all_day = True, summary = ''E1'', calendar_name = ''''\<rparr>,
           gridColumn = 0, gridRow = 0, span = 2, eventRow = 1,
           showLeftArrow = False, showRightArrow = False\<rparr>"] vis
  show ?thesis
    by blast
qed

text \<open>
  The claim as the specification words it fails. In January 2026, with the all-day events
  E0 and E1 on the 5th and 6th, E2 on the 5th and two timed events on the 5th, the cell of
  the 5th (index 7) has three display rows and the cell of the 6th has two. At height 80
  the limits of the two cells are 2 and 2: the 5th displays the bars of E0 and E1 and one
  timed event, 3 items. At height 79 the limits are 1 and 2: the bar of E1 (row 1) is still
  displayed, through the cell of the 6th, and the 5th displays two timed events, 4 items.
\<close>

theorem overflow_items_counterexample:
  "itemsShownInCell 80 (gridDatesOf 2026 0)
     (organizeEventsForGrid 0 (Some [
        \<lparr>ev_start = Iso (20458 * 86400000), ev_end = Iso (20460 * 86400000), all_day = True,
           summary = ''E0'', calendar_name = ''''\<rparr>,
        \<lparr>ev_start = Iso (20458 * 86400000), ev_end = Iso (20460 * 86400000), all_day = True,
           summary = ''E1'', calendar_name = ''''\<rparr>,
        \<lparr>ev_start = Iso (20458 * 86400000), ev_end = Iso (20459 * 86400000), all_day = True,
           summary = ''E2'', calendar_name = ''''\<rparr>,
        \<lparr>ev_start = Iso (20458 * 86400000 + 36000000),
           ev_end = Iso (20458 * 86400000 + 39600000), all_day = False,
           summary = ''T1'', calendar_name = ''''\<rparr>,
        \<lparr>ev_start = Iso (20458 * 86400000 + 50400000),
           ev_end = Iso (20458 * 86400000 + 54000000), all_day = False,
           summary = ''T2'', calendar_name = ''''\<rparr>]) (gridDatesOf 2026 0)) 7 = 3
   \<and> itemsShownInCell 79 (gridDatesOf 2026 0)
     (organizeEventsForGrid 0 (Some [
        \<lparr>ev_start = Iso (20458 * 86400000), ev_end = Iso (20460 * 86400000), all_day = True,
           summary = ''E0'', calendar_name = ''''\<rparr>,
        \<lparr>ev_start = Iso (20458 * 86400000), ev_end = Iso (20460 * 86400000), all_day = True,
           summary = ''E1'', calendar_name = ''''\<rparr>,
        \<lparr>ev_start = Iso (20458 * 86400000), ev_end = Iso (20459 * 86400000), all_day = True,
           summary = ''E2'', calendar_name = ''''\<rparr>,
        \<lparr>ev_start = Iso (20458 * 86400000 + 36000000),
           ev_end = Iso (20458 * 86400000 + 39600000), all_day = False,
           summary = ''T1'', calendar_name = ''''\<rparr>,
        \<lparr>ev_start = Iso (20458 * 86400000 + 50400000),
           ev_end = Iso (20458 * 86400000 + 54000000), all_day = False,
           summary = ''T2'', calendar_name = ''''\<rparr>]) (gridDatesOf 2026 0)) 7 = 4"
  by code_simp

text \<open>
  C3, as the code has it. With an available height of zero or less the cell still keeps
  one spanning row if it has any (the limit is never below 1), shows no timed event, and
  counts everything else as hidden; the indicator is shown when that count is positive.
\<close>

theorem zero_budget_keeps_one_row:
  assumes "a \<le> 0"
  shows "maxVisibleSpanning (resolveCell a L T) = min 1 (int L)
       \<and> visibleTimed (resolveCell a L T) = 0
       \<and> totalHidden (resolveCell a L T) = int L - min 1 (int L) + int T
       \<and> moreShown (resolveCell a L T) = (1 < L \<or> 0 < T)"
proof -
  have m: "cellLimit a L T = min 1 (int L)"
  proof (cases "real_of_int (int L * 22 + int T * 18) \<le> a")
    case True
    with assms have "real_of_int (int L * 22 + int T * 18) \<le> 0" by linarith
    then have "int L * 22 + int T * 18 \<le> 0" by (simp only: of_int_le_0_iff)
    then have "L = 0" by simp
    with True show ?thesis by (simp add: cellLimit_fits)
  next
    case False
    have "(a - 18 - real_of_int (if T > 0 then 18 else 0)) / 22 < real_of_int 1"
      using assms by simp
    then have "\<lfloor>(a - 18 - real_of_int (if T > 0 then 18 else 0)) / 22\<rfloor> < 1"
      by (simp only: floor_less_iff)
    then show ?thesis
      unfolding cellLimit_tight [OF False] by linarith
  qed
  have "(a - real_of_int (min 1 (int L) * 22)
          - real_of_int (if int L > min 1 (int L) then 18 else 0)) / 18 < real_of_int 1"
    using assms by simp
  then have "\<lfloor>(a - real_of_int (min 1 (int L) * 22)
          - real_of_int (if int L > min 1 (int L) then 18 else 0)) / 18\<rfloor> < 1"
    by (simp only: floor_less_iff)
  then have v: "visibleTimed (resolveCell a L T) = 0"
    unfolding visibleTimed_resolveCell m by linarith
  have h: "totalHidden (resolveCell a L T) = int L - min 1 (int L) + int T"
    unfolding totalHidden_resolveCell m v by simp
  have s: "moreShown (resolveCell a L T) = (1 < L \<or> 0 < T)"
    unfolding moreShown_resolveCell h by auto
  from m v h s show ?thesis
    by (simp add: maxVisibleSpanning_resolveCell)
qed

theorem zero_budget_keeps_one_row_witness:
  "maxVisibleSpanning (resolveCell (- 4) 3 2) = min 1 (int 3)
   \<and> visibleTimed (resolveCell (- 4) 3 2) = 0
   \<and> totalHidden (resolveCell (- 4) 3 2) = int 3 - min 1 (int 3) + int 2
   \<and> moreShown (resolveCell (- 4) 3 2) = (1 < (3::nat) \<or> 0 < (2::nat))"
  by (rule zero_budget_keeps_one_row) simp

text \<open>
  The claim as the specification words it fails: at height 0 with three spanning rows and
  no timed event, one row stays within the limit and the hidden count is 2, not 3.
\<close>

theorem zero_budget_counterexample:
  "maxVisibleSpanning (resolveCell 0 3 0) = 1 \<and> totalHidden (resolveCell 0 3 0) = 2
   \<and> moreShown (resolveCell 0 3 0)"
  by (simp add: resolveCell_def cellLimit_def eventRowHeightPx_def timedEventHeightPx_def
      moreIndicatorHeightPx_def Let_def)

section \<open>Properties of the dates\<close>

lemma MonthFromDay_range: "0 \<le> MonthFromDay d \<and> MonthFromDay d \<le> 11"
  by (simp add: MonthFromDay_def monthOf_def Let_def)

lemma MakeDay_fields:
  "MakeDay (YearFromDay d) (MonthFromDay d) (DateFromDay d + k) = d + k"
proof -
  have "MonthFromDay d div 12 = 0" "MonthFromDay d mod 12 = MonthFromDay d"
    using MonthFromDay_range [of d] by simp_all
  then show ?thesis
    by (simp add: MakeDay_def DateFromDay_def DayWithinYear_def Let_def)
qed

lemma addDate_Date: "addDate (Date t) k = Date (t + k * msPerDay)"
proof -
  have "(Day t + k) * msPerDay + t mod msPerDay = t + k * msPerDay"
    unfolding Day_def by (simp add: algebra_simps)
  then show ?thesis
    by (simp add: MakeDay_fields [of "Day t" k])
qed

lemma midnight_getters:
  assumes "t mod msPerDay = 0"
  shows "endsAtMidnight (Date t)"
proof -
  from assms have "86400000 dvd t"
    unfolding msPerDay_def by (simp add: mod_eq_0_iff_dvd)
  then obtain q where t: "t = q * 86400000"
    by (auto simp: dvd_def mult.commute)
  have "(q * 86400000) div 3600000 = q * 24" "(q * 86400000) div 60000 = q * 1440"
    "(q * 86400000) div 1000 = q * 86400"
    by simp_all
  then show ?thesis
    unfolding t endsAtMidnight_def by simp
qed

lemma Day_prev: "Day (t - msPerDay) = Day t - 1"
  unfolding Day_def msPerDay_def by simp

text \<open>
  C5. A timed event whose end is exactly local midnight (the start of day D+1) has its end
  date moved to the midnight of the previous day, day D, and the end index of its span is
  looked up under the key of day D; the end date of an all-day event is never moved.
\<close>

theorem midnight_end_previous_day:
  "(\<not> all_day ev \<and> ev_end ev = Iso t \<and> t mod msPerDay = 0 \<longrightarrow>
      adjustedEndDate now ev = dayDate (Day t - 1)
      \<and> endIndexOf now gridDates ev
          = dateToIndex gridDates (getDateKey (dayDate (Day t - 1))))
   \<and> (all_day ev \<longrightarrow> adjustedEndDate now ev = parseEventDate now (ev_end ev))"
proof -
  have "adjustedEndDate now ev = dayDate (Day t - 1)"
    if "\<not> all_day ev" "ev_end ev = Iso t" "t mod msPerDay = 0"
  proof -
    from that(3) have "Day t * msPerDay = t"
      unfolding Day_def by (simp add: mod_eq_0_iff_dvd)
    then have "t - msPerDay = (Day t - 1) * msPerDay"
      by (simp add: algebra_simps)
    with that show ?thesis
      by (simp add: adjustedEndDate_def Let_def midnight_getters addDate_Date dayDate_def
          del: addDate.simps)
  qed
  then show ?thesis
    by (auto simp: endIndexOf_def adjustedEndDate_def)
qed

theorem midnight_end_previous_day_witness:
  "adjustedEndDate 0
     \<lparr>ev_start = Iso (20458 * 86400000 + 36000000), ev_end = Iso (20461 * 86400000),
        all_day = False, summary = ''course'', calendar_name = ''''\<rparr>
     = dayDate 20460
   \<and> endIndexOf 0 [dayDate 20459, dayDate 20460, dayDate 20461]
     \<lparr>ev_start = Iso (20458 * 86400000 + 36000000), ev_end = Iso (20461 * 86400000),
        all_day = False, summary = ''course'', calendar_name = ''''\<rparr>
     = dateToIndex [dayDate 20459, dayDate 20460, dayDate 20461] (getDateKey (dayDate 20460))
   \<and> adjustedEndDate 0
     \<lparr>ev_start = Iso (20458 * 86400000), ev_end = Iso (20461 * 86400000),
        all_day = True, summary = ''holiday'', calendar_name = ''''\<rparr>
     = Date (20461 * 86400000)"
  using midnight_end_previous_day [of
      "\<lparr>ev_start = Iso (20458 * 86400000 + 36000000), ev_end = Iso (20461 * 86400000),
        all_day = False, summary = ''course'', calendar_name = ''''\<rparr>"
      "20461 * 86400000" 0 "[dayDate 20459, dayDate 20460, dayDate 20461]"]
    midnight_end_previous_day [of
      "\<lparr>ev_start = Iso (20458 * 86400000), ev_end = Iso (20461 * 86400000),
        all_day = True, summary = ''holiday'', calendar_name = ''''\<rparr>" 0 0]
  by (simp add: msPerDay_def Day_def)

section \<open>Properties of the loop over the events\<close>

lemma fold_invariant:
  assumes "P s" and "\<And>x s. x \<in> set xs \<Longrightarrow> P s \<Longrightarrow> P (f x s)"
  shows "P (fold f xs s)"
  using assms by (induction xs arbitrary: s) auto

lemma fold_init_keys:
  "fold (\<lambda>date m. m(getDateKey date \<mapsto> [])) g m k =
     (if k \<in> getDateKey ` set g then Some [] else m k)"
  by (induction g arbitrary: m) auto

lemma initSingleDayEvents_apply:
  "initSingleDayEvents g k = (if k \<in> getDateKey ` set g then Some [] else None)"
  by (simp add: initSingleDayEvents_def fold_init_keys)

lemma fold_index_None:
  "fold (\<lambda>(index, date) m. m(getDateKey date \<mapsto> index)) ps m k = None
     \<longleftrightarrow> k \<notin> getDateKey ` snd ` set ps \<and> m k = None"
  by (induction ps arbitrary: m) (auto split: prod.splits)

lemma dateToIndex_None:
  "dateToIndex g k = None \<longleftrightarrow> k \<notin> getDateKey ` set g"
proof -
  have "snd ` set (enumerate 0 g) = set g"
    by (metis map_snd_enumerate set_map)
  then show ?thesis
    by (simp add: dateToIndex_def fold_index_None)
qed

lemma weekSegment_Some:
  "weekSegment ev si ei fw lw r w = Some s \<Longrightarrow>
     seg_event s = ev \<and> eventRow s = r \<and> gridRow s = w \<and> 0 < span s
     \<and> gridColumn s = colStartOf si fw w"
  by (auto simp: weekSegment_def Let_def split: if_splits)

lemma set_map_filter: "set (List.map_filter f xs) = {y. \<exists>x \<in> set xs. f x = Some y}"
  by (induction xs) (auto simp: List.map_filter_simps split: option.splits)

lemma spanSegments_event:
  "s \<in> set (spanSegments ev g si ei r) \<Longrightarrow> seg_event s = ev \<and> eventRow s = r"
  by (auto simp: spanSegments_def Let_def set_map_filter dest: weekSegment_Some)

lemma placeSpanning_skip:
  assumes "getDateKey (parseEventDate now (ev_start ev)) \<notin> getDateKey ` set g"
    and "getDateKey (adjustedEndDate now ev) \<notin> getDateKey ` set g"
  shows "placeSpanning now g st ev = st"
  using assms
  by (simp add: placeSpanning_def startIndexOf_def endIndexOf_def dateToIndex_None
      del: not_None_eq)

lemma placeSpanning_place:
  assumes "getDateKey (parseEventDate now (ev_start ev)) \<in> getDateKey ` set g
     \<or> getDateKey (adjustedEndDate now ev) \<in> getDateKey ` set g"
  shows "placeSpanning now g st ev =
     (let cells = eventCells now g ev;
          r = fst (chooseRow (globalRowOccupancy st) cells);
          occ = snd (chooseRow (globalRowOccupancy st) cells)
      in st\<lparr>globalRowOccupancy := markCells occ r cells,
            multiDayEvents := multiDayEvents st
               @ spanSegments ev g (startIndexOf now g ev) (endIndexOf now g ev) r,
            rowLog := rowLog st @ [(ev, r)]\<rparr>)"
proof -
  have "startIndexOf now g ev \<noteq> None
     \<or> (endIndexOf now g ev \<noteq> None \<and> startIndexOf now g ev = None)"
    using assms unfolding startIndexOf_def endIndexOf_def dateToIndex_None by blast
  then show ?thesis
    unfolding placeSpanning_def Let_def by (simp add: case_prod_beta del: not_None_eq)
qed

lemma placeSpanning_segments:
  assumes "s \<in> set (multiDayEvents (placeSpanning now g st ev))"
  shows "s \<in> set (multiDayEvents st) \<or>
     (seg_event s = ev \<and>
      (getDateKey (parseEventDate now (ev_start ev)) \<in> getDateKey ` set g
       \<or> getDateKey (adjustedEndDate now ev) \<in> getDateKey ` set g))"
proof (cases "getDateKey (parseEventDate now (ev_start ev)) \<in> getDateKey ` set g
     \<or> getDateKey (adjustedEndDate now ev) \<in> getDateKey ` set g")
  case True
  from assms show ?thesis
    unfolding placeSpanning_place [OF True] Let_def
    using True by (auto dest: spanSegments_event)
next
  case False
  then have "placeSpanning now g st ev = st"
    by (simp add: placeSpanning_skip)
  with assms show ?thesis by simp
qed

lemma placeSpanning_singles:
  "singleDayEvents (placeSpanning now g st ev) = singleDayEvents st"
  by (simp add: placeSpanning_def Let_def case_prod_beta)

lemma layoutInv_init: "layoutInv now g (initLayout g)"
  by (simp add: layoutInv_def initLayout_def initSingleDayEvents_apply)

lemma layoutInv_placeEvent:
  assumes "layoutInv now g st"
  shows "layoutInv now g (placeEvent now g ev st)"
proof (cases "isMultiDayEvent now ev \<or> all_day ev")
  case True
  then have eq: "placeEvent now g ev st = placeSpanning now g st ev"
    by (simp add: placeEvent_def)
  have "placed now g (seg_event s)"
    if "s \<in> set (multiDayEvents (placeSpanning now g st ev))" for s
    using placeSpanning_segments [OF that] assms True
    by (auto simp: layoutInv_def placed_def)
  with assms show ?thesis
    unfolding eq layoutInv_def placeSpanning_singles by blast
next
  case False
  then show ?thesis
    using assms
    by (auto simp: placeEvent_def layoutInv_def Let_def single_def split: option.splits)
qed

lemma layoutInv_organize: "layoutInv now g (organizeEventsForGrid now events g)"
  unfolding organizeEventsForGrid_def
  by (cases events) (auto intro!: fold_invariant layoutInv_init layoutInv_placeEvent)

lemma layoutInv_buckets:
  assumes "layoutInv now g st" and "ev \<in> \<Union> (set ` ran (singleDayEvents st))"
  shows "single now ev \<and> getDateKey (parseEventDate now (ev_start ev)) \<in> getDateKey ` set g"
proof -
  from assms(2) obtain k b where "singleDayEvents st k = Some b" and "ev \<in> set b"
    by (auto simp: ran_def)
  with assms(1) show ?thesis
    unfolding layoutInv_def by blast
qed

lemma layoutInv_segments:
  assumes "layoutInv now g st" and "ev \<in> seg_event ` set (multiDayEvents st)"
  shows "placed now g ev"
  using assms unfolding layoutInv_def by blast

lemma organize_buckets:
  "ev \<in> \<Union> (set ` ran (singleDayEvents (organizeEventsForGrid now events g))) \<Longrightarrow>
     single now ev \<and> getDateKey (parseEventDate now (ev_start ev)) \<in> getDateKey ` set g"
  by (rule layoutInv_buckets [OF layoutInv_organize])

lemma organize_segments:
  "ev \<in> seg_event ` set (multiDayEvents (organizeEventsForGrid now events g)) \<Longrightarrow>
     placed now g ev"
  by (rule layoutInv_segments [OF layoutInv_organize])

text \<open>
  C10. An event classified as single-day (neither multi-day nor all-day) whose start date
  key is the key of no date of the grid is left out of the layout: it is in none of the
  single-day buckets and no segment of the multi-day list is a segment of it.
\<close>

theorem single_day_outside_grid_omitted:
  assumes "\<not> isMultiDayEvent now ev" and "\<not> all_day ev"
    and "getDateKey (parseEventDate now (ev_start ev)) \<notin> getDateKey ` set gridDates"
  shows "ev \<notin> \<Union> (set ` ran (singleDayEvents (organizeEventsForGrid now events gridDates)))
       \<and> ev \<notin> seg_event ` set (multiDayEvents (organizeEventsForGrid now events gridDates))"
  using organize_buckets [of ev now events gridDates]
    organize_segments [of ev now events gridDates] assms
  unfolding placed_def single_def by blast

theorem single_day_outside_grid_omitted_witness:
  "\<lparr>ev_start = Iso (20522 * 86400000 + 36000000), ev_end = Iso (20522 * 86400000 + 39600000),
      all_day = False, summary = ''dentist'', calendar_name = ''''\<rparr>
     \<notin> \<Union> (set ` ran (singleDayEvents (organizeEventsForGrid 0
          (Some [\<lparr>ev_start = Iso (20522 * 86400000 + 36000000),
                   ev_end = Iso (20522 * 86400000 + 39600000),
                   all_day = False, summary = ''dentist'', calendar_name = ''''\<rparr>])
          (gridDatesOf 2026 0))))
   \<and> \<lparr>ev_start = Iso (20522 * 86400000 + 36000000), ev_end = Iso (20522 * 86400000 + 39600000),
      all_day = False, summary = ''dentist'', calendar_name = ''''\<rparr>
     \<notin> seg_event ` set (multiDayEvents (organizeEventsForGrid 0
          (Some [\<lparr>ev_start = Iso (20522 * 86400000 + 36000000),
                   ev_end = Iso (20522 * 86400000 + 39600000),
                   all_day = False, summary = ''dentist'', calendar_name = ''''\<rparr>])
          (gridDatesOf 2026 0)))"
proof -
  have multi: "\<not> isMultiDayEvent 0
      \<lparr>ev_start = Iso (20522 * 86400000 + 36000000), ev_end = Iso (20522 * 86400000 + 39600000),
        all_day = False, summary = ''dentist'', calendar_name = ''''\<rparr>"
    by code_simp
  have key: "getDateKey (parseEventDate 0 (ev_start
      \<lparr>ev_start = Iso (20522 * 86400000 + 36000000), ev_end = Iso (20522 * 86400000 + 39600000),
        all_day = False, summary = ''dentist'', calendar_name = ''''\<rparr>))
      \<notin> getDateKey ` set (gridDatesOf 2026 0)"
    by code_simp
  show ?thesis
    by (rule single_day_outside_grid_omitted [OF multi _ key]) simp
qed

text \<open>
  C2, as the code has it. The loop body places a spanning event only when the key of its
  start date or of its adjusted end date is a key of the grid. An event with both outside
  the grid gets no segment (and is in no single-day bucket), whether or not its interval
  covers the grid.
\<close>

theorem outside_both_ends_not_rendered:
  assumes "isMultiDayEvent now ev \<or> all_day ev"
    and "getDateKey (parseEventDate now (ev_start ev)) \<notin> getDateKey ` set gridDates"
    and "getDateKey (adjustedEndDate now ev) \<notin> getDateKey ` set gridDates"
  shows "ev \<notin> seg_event ` set (multiDayEvents (organizeEventsForGrid now events gridDates))
       \<and> ev \<notin> \<Union> (set ` ran (singleDayEvents (organizeEventsForGrid now events gridDates)))"
  using organize_buckets [of ev now events gridDates]
    organize_segments [of ev now events gridDates] assms
  unfolding placed_def single_def by blast

theorem outside_both_ends_not_rendered_witness:
  "\<lparr>ev_start = Iso (20423 * 86400000), ev_end = Iso (20513 * 86400000), all_day = True,
      summary = ''sabbatical'', calendar_name = ''''\<rparr>
     \<notin> seg_event ` set (multiDayEvents (organizeEventsForGrid 0
          (Some [\<lparr>ev_start = Iso (20423 * 86400000), ev_end = Iso (20513 * 86400000),
                   all_day = True, summary = ''sabbatical'', calendar_name = ''''\<rparr>])
          (gridDatesOf 2026 0)))
   \<and> \<lparr>ev_start = Iso (20423 * 86400000), ev_end = Iso (20513 * 86400000), all_day = True,
      summary = ''sabbatical'', calendar_name = ''''\<rparr>
     \<notin> \<Union> (set ` ran (singleDayEvents (organizeEventsForGrid 0
          (Some [\<lparr>ev_start = Iso (20423 * 86400000), ev_end = Iso (20513 * 86400000),
                   all_day = True, summary = ''sabbatical'', calendar_name = ''''\<rparr>])
          (gridDatesOf 2026 0))))"
proof -
  have startKey: "getDateKey (parseEventDate 0 (ev_start
      \<lparr>ev_start = Iso (20423 * 86400000), ev_end = Iso (20513 * 86400000), all_day = True,
        summary = ''sabbatical'', calendar_name = ''''\<rparr>))
      \<notin> getDateKey ` set (gridDatesOf 2026 0)"
    by code_simp
  have endKey: "getDateKey (adjustedEndDate 0
      \<lparr>ev_start = Iso (20423 * 86400000), ev_end = Iso (20513 * 86400000), all_day = True,
        summary = ''sabbatical'', calendar_name = ''''\<rparr>)
      \<notin> getDateKey ` set (gridDatesOf 2026 0)"
    by code_simp
  show ?thesis
    by (rule outside_both_ends_not_rendered [OF _ startKey endKey]) simp
qed

text \<open>
  The claim as the specification words it fails. The grid of January 2026 runs from
  29 December 2025 (day 20451) to 1 February 2026 (day 20485). An all-day event from
  1 December 2025 (day 20423) to 1 March 2026 (day 20513) covers every day of it, and it
  gets no segment at all.
\<close>

theorem covering_event_counterexample:
  "gridDatesOf 2026 0 = map dayDate [20451..20485]
   \<and> multiDayEvents (organizeEventsForGrid 0
        (Some [\<lparr>ev_start = Iso (20423 * 86400000), ev_end = Iso (20513 * 86400000),
                 all_day = True, summary = ''sabbatical'', calendar_name = ''''\<rparr>])
        (gridDatesOf 2026 0)) = []"
  by code_simp

text \<open>
  C9 at a failing input. The current instant is 15 January 2026, 10:00. A timed event
  whose start is a string that does not parse gets the Invalid Date, not the current
  instant: it reaches no bucket and no segment. The same event with a missing start is
  put in the bucket of the current day.
\<close>

theorem unparseable_start_not_now:
  "parseEventDate (20468 * 86400000 + 36000000) Unparseable = InvalidDate
   \<and> \<lparr>ev_start = Unparseable, ev_end = Iso (20468 * 86400000 + 39600000),
        all_day = False, summary = ''call'', calendar_name = ''''\<rparr>
       \<notin> \<Union> (set ` ran (singleDayEvents (organizeEventsForGrid (20468 * 86400000 + 36000000)
            (Some [\<lparr>ev_start = Unparseable, ev_end = Iso (20468 * 86400000 + 39600000),
                     all_day = False, summary = ''call'', calendar_name = ''''\<rparr>])
            (gridDatesOf 2026 0))))
   \<and> multiDayEvents (organizeEventsForGrid (20468 * 86400000 + 36000000)
        (Some [\<lparr>ev_start = Unparseable, ev_end = Iso (20468 * 86400000 + 39600000),
                 all_day = False, summary = ''call'', calendar_name = ''''\<rparr>])
        (gridDatesOf 2026 0)) = []
   \<and> singleDayEvents (organizeEventsForGrid (20468 * 86400000 + 36000000)
        (Some [\<lparr>ev_start = Missing, ev_end = Iso (20468 * 86400000 + 39600000),
                 all_day = False, summary = ''call'', calendar_name = ''''\<rparr>])
        (gridDatesOf 2026 0)) (Key 2026 1 15)
      = Some [\<lparr>ev_start = Missing, ev_end = Iso (20468 * 86400000 + 39600000),
                 all_day = False, summary = ''call'', calendar_name = ''''\<rparr>]"
proof -
  have key: "getDateKey (parseEventDate (20468 * 86400000 + 36000000) (ev_start
      \<lparr>ev_start = Unparseable, ev_end = Iso (20468 * 86400000 + 39600000),
        all_day = False, summary = ''call'', calendar_name = ''''\<rparr>))
      \<notin> getDateKey ` set (gridDatesOf 2026 0)"
    by code_simp
  have none: "\<lparr>ev_start = Unparseable, ev_end = Iso (20468 * 86400000 + 39600000),
        all_day = False, summary = ''call'', calendar_name = ''''\<rparr>
       \<notin> \<Union> (set ` ran (singleDayEvents (organizeEventsForGrid (20468 * 86400000 + 36000000)
            (Some [\<lparr>ev_start = Unparseable, ev_end = Iso (20468 * 86400000 + 39600000),
                     all_day = False, summary = ''call'', calendar_name = ''''\<rparr>])
            (gridDatesOf 2026 0))))"
    using organize_buckets key by blast
  have segs: "multiDayEvents (organizeEventsForGrid (20468 * 86400000 + 36000000)
        (Some [\<lparr>ev_start = Unparseable, ev_end = Iso (20468 * 86400000 + 39600000),
                 all_day = False, summary = ''call'', calendar_name = ''''\<rparr>])
        (gridDatesOf 2026 0)) = []"
    by code_simp
  have today: "singleDayEvents (organizeEventsForGrid (20468 * 86400000 + 36000000)
        (Some [\<lparr>ev_start = Missing, ev_end = Iso (20468 * 86400000 + 39600000),
                 all_day = False, summary = ''call'', calendar_name = ''''\<rparr>])
        (gridDatesOf 2026 0)) (Key 2026 1 15)
      = Some [\<lparr>ev_start = Missing, ev_end = Iso (20468 * 86400000 + 39600000),
                 all_day = False, summary = ''call'', calendar_name = ''''\<rparr>]"
    by code_simp
  from none segs today show ?thesis
    by simp
qed

section \<open>Properties of the row assignment\<close>

lemma findRow_Some:
  "findRow occ cells k = Some r \<Longrightarrow>
     k \<le> r \<and> r - k < length occ \<and> set cells \<inter> occ ! (r - k) = {}
     \<and> (\<forall>r' < r - k. set cells \<inter> occ ! r' \<noteq> {})"
proof (induction occ arbitrary: k)
  case Nil
  then show ?case by simp
next
  case (Cons row rows)
  show ?case
  proof (cases "list_all (\<lambda>cellIndex. cellIndex \<notin> row) cells")
    case True
    with Cons.prems have "r = k" by simp
    moreover from True have "set cells \<inter> row = {}"
      by (auto simp: list_all_iff)
    ultimately show ?thesis by simp
  next
    case False
    with Cons.prems have rec: "findRow rows cells (Suc k) = Some r" by simp
    from False have ne: "set cells \<inter> row \<noteq> {}"
      by (auto simp: list_all_iff)
    from Cons.IH [OF rec] have ih: "Suc k \<le> r" "r - Suc k < length rows"
      "set cells \<inter> rows ! (r - Suc k) = {}"
      "\<forall>r' < r - Suc k. set cells \<inter> rows ! r' \<noteq> {}"
      by auto
    from ih(1) have rk: "r - k = Suc (r - Suc k)" by simp
    have "set cells \<inter> (row # rows) ! r' \<noteq> {}" if "r' < r - k" for r'
      using that ne ih(4) rk by (cases r') auto
    with ih rk show ?thesis by auto
  qed
qed

lemma findRow_None:
  "findRow occ cells k = None \<Longrightarrow> \<forall>r' < length occ. set cells \<inter> occ ! r' \<noteq> {}"
proof (induction occ arbitrary: k)
  case Nil
  then show ?case by simp
next
  case (Cons row rows)
  from Cons.prems have ne: "set cells \<inter> row \<noteq> {}"
    by (auto simp: list_all_iff split: if_splits)
  from Cons.prems have "findRow rows cells (Suc k) = None"
    by (simp split: if_splits)
  from Cons.IH [OF this] ne show ?case
    by (auto simp: nth_Cons split: nat.splits)
qed

text \<open>What \<open>chooseRow\<close> returns: the row, and the occupancy with the row in it.\<close>

lemma chooseRow_props:
  assumes "chooseRow occ cells = (r, occ')"
  shows "r < length occ'" and "r \<le> length occ"
    and "\<forall>r' < r. set cells \<inter> occ ! r' \<noteq> {}"
    and "set cells \<inter> occ' ! r = {}"
    and "occ' = occ \<or> (r = length occ \<and> occ' = occ @ [{}])"
proof -
  show "r < length occ'" "r \<le> length occ" "\<forall>r' < r. set cells \<inter> occ ! r' \<noteq> {}"
    "set cells \<inter> occ' ! r = {}" "occ' = occ \<or> (r = length occ \<and> occ' = occ @ [{}])"
    using assms findRow_Some [of occ cells 0] findRow_None [of occ cells 0]
    by (auto simp: chooseRow_def split: option.splits)
qed

lemma rowCells_snoc:
  "rowCells now g (asg @ [(e, r)]) r' =
     rowCells now g asg r' \<union> (if r' = r then set (eventCells now g e) else {})"
  unfolding rowCells_def by auto

lemma rowCells_empty:
  "\<forall>(e, r') \<in> set asg. r' \<noteq> r \<Longrightarrow> rowCells now g asg r = {}"
  unfolding rowCells_def by auto

lemma rowCells_witness:
  assumes "c \<in> rowCells now g asg r"
  shows "\<exists>i < length asg. snd (asg ! i) = r \<and> c \<in> set (eventCells now g (fst (asg ! i)))"
proof -
  from assms obtain e where "(e, r) \<in> set asg" and c: "c \<in> set (eventCells now g e)"
    unfolding rowCells_def by auto
  then obtain i where "i < length asg" and "asg ! i = (e, r)"
    by (auto simp: in_set_conv_nth)
  with c show ?thesis by auto
qed

lemma rowCells_member:
  "i < length asg \<Longrightarrow> set (eventCells now g (fst (asg ! i))) \<subseteq> rowCells now g asg (snd (asg ! i))"
  unfolding rowCells_def
  by (metis (mono_tags, lifting) Union_upper mem_Collect_eq nth_mem prod.collapse)

lemma lanesOk_snoc:
  assumes ok: "lanesOk now g asg"
    and new: "\<forall>i < length asg. overlap (eventCells now g (fst (asg ! i))) (eventCells now g e)
                \<longrightarrow> snd (asg ! i) \<noteq> r"
    and low: "\<forall>r' < r. \<exists>i < length asg. snd (asg ! i) = r'
                \<and> overlap (eventCells now g (fst (asg ! i))) (eventCells now g e)"
  shows "lanesOk now g (asg @ [(e, r)])"
proof -
  let ?ext = "asg @ [(e, r)]"
  have old: "?ext ! i = asg ! i" if "i < length asg" for i
    using that by (simp add: nth_append)
  have last: "?ext ! length asg = (e, r)"
    by simp
  have "(\<forall>i < j. overlap (eventCells now g (fst (?ext ! i))) (eventCells now g (fst (?ext ! j)))
                 \<longrightarrow> snd (?ext ! i) \<noteq> snd (?ext ! j))
        \<and> (\<forall>r' < snd (?ext ! j).
              \<exists>i < j. snd (?ext ! i) = r'
                     \<and> overlap (eventCells now g (fst (?ext ! i)))
                               (eventCells now g (fst (?ext ! j))))"
    if j: "j < length ?ext" for j
  proof (cases "j < length asg")
    case True
    show ?thesis
    proof (intro conjI allI impI)
      fix i assume "i < j"
        and "overlap (eventCells now g (fst (?ext ! i))) (eventCells now g (fst (?ext ! j)))"
      with True ok show "snd (?ext ! i) \<noteq> snd (?ext ! j)"
        unfolding lanesOk_def by (simp add: old)
    next
      fix r' assume "r' < snd (?ext ! j)"
      with True have "r' < snd (asg ! j)" by (simp add: old)
      with ok True obtain i where "i < j" "snd (asg ! i) = r'"
        "overlap (eventCells now g (fst (asg ! i))) (eventCells now g (fst (asg ! j)))"
        unfolding lanesOk_def by blast
      with True show "\<exists>i < j. snd (?ext ! i) = r'
          \<and> overlap (eventCells now g (fst (?ext ! i))) (eventCells now g (fst (?ext ! j)))"
        by (intro exI [of _ i]) (simp add: old)
    qed
  next
    case False
    with j have jl: "j = length asg" by simp
    show ?thesis
    proof (intro conjI allI impI)
      fix i assume "i < j"
        and "overlap (eventCells now g (fst (?ext ! i))) (eventCells now g (fst (?ext ! j)))"
      with new show "snd (?ext ! i) \<noteq> snd (?ext ! j)"
        unfolding jl last by (simp add: old)
    next
      fix r' assume "r' < snd (?ext ! j)"
      then have "r' < r" unfolding jl last by simp
      with low obtain i where "i < length asg" "snd (asg ! i) = r'"
        "overlap (eventCells now g (fst (asg ! i))) (eventCells now g e)"
        by blast
      then show "\<exists>i < j. snd (?ext ! i) = r'
          \<and> overlap (eventCells now g (fst (?ext ! i))) (eventCells now g (fst (?ext ! j)))"
        unfolding jl last by (intro exI [of _ i]) (simp add: old)
    qed
  qed
  then show ?thesis
    unfolding lanesOk_def by blast
qed

lemma laneInv_init: "laneInv now g (initLayout g)"
  by (simp add: laneInv_def initLayout_def lanesOk_def)

lemma laneInv_placeSpanning:
  assumes inv: "laneInv now g st"
  shows "laneInv now g (placeSpanning now g st ev)"
proof (cases "getDateKey (parseEventDate now (ev_start ev)) \<in> getDateKey ` set g
     \<or> getDateKey (adjustedEndDate now ev) \<in> getDateKey ` set g")
  case False
  then have "placeSpanning now g st ev = st"
    by (simp add: placeSpanning_skip)
  with inv show ?thesis by simp
next
  case True
  define cells where "cells = eventCells now g ev"
  define occ where "occ = globalRowOccupancy st"
  define asg where "asg = rowLog st"
  obtain r occ' where ch: "chooseRow occ cells = (r, occ')"
    by (cases "chooseRow occ cells")
  note cp = chooseRow_props [OF ch]
  define st' where "st' = placeSpanning now g st ev"
  have occ_st': "globalRowOccupancy st' = markCells occ' r cells"
    and log_st': "rowLog st' = asg @ [(ev, r)]"
    and segs_st': "multiDayEvents st' = multiDayEvents st
        @ spanSegments ev g (startIndexOf now g ev) (endIndexOf now g ev) r"
    unfolding st'_def placeSpanning_place [OF True] Let_def
    using ch by (simp_all add: cells_def occ_def asg_def)
  from inv have a: "\<forall>(e, r') \<in> set asg. r' < length occ"
    and b: "\<forall>r' < length occ. occ ! r' = rowCells now g asg r'"
    and c: "lanesOk now g asg"
    and d: "\<forall>s \<in> set (multiDayEvents st). (seg_event s, eventRow s) \<in> set asg"
    unfolding laneInv_def occ_def asg_def by auto
  have len: "length (markCells occ' r cells) = length occ'"
    by (simp add: markCells_def)
  have len': "length occ \<le> length occ'"
    using cp(5) by auto
  have old_row: "occ' ! r' = rowCells now g asg r'" if "r' < length occ'" for r'
  proof (cases "r' < length occ")
    case True
    with cp(5) b show ?thesis by (auto simp: nth_append)
  next
    case False
    with that cp(5) have "r' = length occ" "occ' = occ @ [{}]" by auto
    moreover have "rowCells now g asg (length occ) = {}"
      using a by (intro rowCells_empty) auto
    ultimately show ?thesis by simp
  qed
  have a': "\<forall>(e, r') \<in> set (asg @ [(ev, r)]). r' < length (markCells occ' r cells)"
    using a cp(1) len len' by auto
  have b': "\<forall>r' < length (markCells occ' r cells).
      markCells occ' r cells ! r' = rowCells now g (asg @ [(ev, r)]) r'"
    using old_row cp(1) unfolding rowCells_snoc len
    by (auto simp: markCells_def cells_def nth_list_update)
  have free: "set cells \<inter> rowCells now g asg r = {}"
    using cp(4) old_row [OF cp(1)] by simp
  have new: "\<forall>i < length asg. overlap (eventCells now g (fst (asg ! i))) (eventCells now g ev)
      \<longrightarrow> snd (asg ! i) \<noteq> r"
  proof (intro allI impI notI)
    fix i assume i: "i < length asg"
      and ov: "overlap (eventCells now g (fst (asg ! i))) (eventCells now g ev)"
      and eq: "snd (asg ! i) = r"
    from rowCells_member [OF i, of now g] eq
    have "set (eventCells now g (fst (asg ! i))) \<subseteq> rowCells now g asg r" by simp
    with ov free show False
      unfolding overlap_def cells_def by blast
  qed
  have low: "\<forall>r' < r. \<exists>i < length asg. snd (asg ! i) = r'
      \<and> overlap (eventCells now g (fst (asg ! i))) (eventCells now g ev)"
  proof (intro allI impI)
    fix r' assume r': "r' < r"
    with cp(2) have lt: "r' < length occ" by simp
    from cp(3) r' obtain x where x: "x \<in> set cells" "x \<in> occ ! r'" by blast
    with b lt have "x \<in> rowCells now g asg r'" by simp
    from rowCells_witness [OF this] x(1)
    show "\<exists>i < length asg. snd (asg ! i) = r'
      \<and> overlap (eventCells now g (fst (asg ! i))) (eventCells now g ev)"
      unfolding overlap_def cells_def by blast
  qed
  have c': "lanesOk now g (asg @ [(ev, r)])"
    using c new low by (rule lanesOk_snoc)
  have d': "\<forall>s \<in> set (multiDayEvents st'). (seg_event s, eventRow s) \<in> set (asg @ [(ev, r)])"
    unfolding segs_st' using d by (auto dest: spanSegments_event)
  show ?thesis
    unfolding laneInv_def st'_def [symmetric] occ_st' log_st'
    using a' b' c' d' by blast
qed

lemma laneInv_placeEvent:
  assumes "laneInv now g st"
  shows "laneInv now g (placeEvent now g ev st)"
proof (cases "isMultiDayEvent now ev \<or> all_day ev")
  case True
  then show ?thesis
    using laneInv_placeSpanning [OF assms] by (simp add: placeEvent_def)
next
  case False
  with assms show ?thesis
    by (auto simp: placeEvent_def laneInv_def Let_def split: option.splits)
qed

lemma laneInv_organize: "laneInv now g (organizeEventsForGrid now events g)"
  unfolding organizeEventsForGrid_def
  by (cases events) (auto intro!: fold_invariant laneInv_init laneInv_placeEvent)

lemma rowLog_placeEvent:
  "map fst (rowLog (placeEvent now g ev st)) =
     map fst (rowLog st) @ (if placed now g ev then [ev] else [])"
proof (cases "isMultiDayEvent now ev \<or> all_day ev")
  case False
  then show ?thesis
    by (auto simp: placeEvent_def placed_def Let_def split: option.splits)
next
  case multi: True
  show ?thesis
  proof (cases "getDateKey (parseEventDate now (ev_start ev)) \<in> getDateKey ` set g
     \<or> getDateKey (adjustedEndDate now ev) \<in> getDateKey ` set g")
    case True
    with multi have "placed now g ev" by (simp add: placed_def)
    with multi show ?thesis
      by (simp add: placeEvent_def placeSpanning_place [OF True] Let_def)
  next
    case False
    with multi have "\<not> placed now g ev" by (simp add: placed_def)
    with multi False show ?thesis
      by (simp add: placeEvent_def placeSpanning_skip)
  qed
qed

lemma rowLog_fold:
  "map fst (rowLog (fold (placeEvent now g) xs st)) =
     map fst (rowLog st) @ filter (placed now g) xs"
  by (induction xs arbitrary: st) (simp_all add: rowLog_placeEvent)

lemma rowLog_organize:
  "map fst (rowLog (organizeEventsForGrid now (Some evs) g)) =
     filter (placed now g) (sortedEvents now evs)"
  by (simp add: organizeEventsForGrid_def rowLog_fold initLayout_def)

lemma mset_insertSorted: "mset (insertSorted now x ys) = add_mset x (mset ys)"
  by (induction ys) simp_all

lemma mset_sortedEvents: "mset (sortedEvents now evs) = mset evs"
  unfolding sortedEvents_def by (induction evs) (simp_all add: mset_insertSorted)

lemma startsAfter_startTime:
  assumes "ev_start a \<noteq> Unparseable" and "ev_start b \<noteq> Unparseable"
  shows "startsAfter now a b \<longleftrightarrow> startTime now b < startTime now a"
  using assms
  by (cases "ev_start a"; cases "ev_start b") (simp_all add: startsAfter_def startTime_def)

lemma sorted_insertSorted:
  assumes "sorted_wrt (\<lambda>a b. startTime now a \<le> startTime now b) ys"
    and "ev_start x \<noteq> Unparseable" and "\<forall>y \<in> set ys. ev_start y \<noteq> Unparseable"
  shows "sorted_wrt (\<lambda>a b. startTime now a \<le> startTime now b) (insertSorted now x ys)"
  using assms
proof (induction ys)
  case Nil
  then show ?case by simp
next
  case (Cons y ys)
  have set_ins: "set (insertSorted now x ys) = insert x (set ys)"
    using mset_insertSorted [of now x ys] by (metis set_mset_add_mset_insert set_mset_mset)
  show ?case
  proof (cases "startsAfter now x y")
    case True
    then have "startTime now y < startTime now x"
      using Cons.prems by (simp add: startsAfter_startTime)
    with True Cons show ?thesis
      by (auto simp: set_ins)
  next
    case False
    then have "startTime now x \<le> startTime now y"
      using Cons.prems by (simp add: startsAfter_startTime)
    with False Cons.prems show ?thesis
      by auto
  qed
qed

lemma sorted_sortedEvents:
  assumes "\<forall>e \<in> set evs. ev_start e \<noteq> Unparseable"
  shows "sorted_wrt (\<lambda>a b. startTime now a \<le> startTime now b) (sortedEvents now evs)"
  using assms
proof (induction evs)
  case Nil
  then show ?case by (simp add: sortedEvents_def)
next
  case (Cons e evs)
  have "set (foldr (insertSorted now) evs []) = set evs"
    using mset_sortedEvents [of now evs] unfolding sortedEvents_def
    by (metis set_mset_mset)
  with Cons show ?case
    unfolding sortedEvents_def by (simp add: sorted_insertSorted)
qed

text \<open>
  C1. Lane assignment is overlap-free and first-fit. In the log of the rows given by
  \<^verbatim>\<open>organizeEventsForGrid\<close>, two events that share a grid cell never have the same row;
  every row below the row of an event holds an earlier event that shares a cell with it,
  so the row is the lowest that is free for the event; every segment carries the one row
  logged for its event; and the events are taken in the order of the sort, which is a
  permutation of the input in ascending order of the start (for starts that are dates).
\<close>

theorem lane_assignment_overlap_free:
  "let out = organizeEventsForGrid now (Some evs) gridDates;
       asg = rowLog out;
       cells = (\<lambda>i. eventCells now gridDates (fst (asg ! i)))
   in (\<forall>i j. i < j \<and> j < length asg \<and> overlap (cells i) (cells j)
             \<longrightarrow> snd (asg ! i) \<noteq> snd (asg ! j))
      \<and> (\<forall>j < length asg. \<forall>r < snd (asg ! j).
            \<exists>i < j. snd (asg ! i) = r \<and> overlap (cells i) (cells j))
      \<and> (\<forall>s \<in> set (multiDayEvents out). (seg_event s, eventRow s) \<in> set asg)
      \<and> map fst asg = filter (placed now gridDates) (sortedEvents now evs)
      \<and> mset (sortedEvents now evs) = mset evs
      \<and> ((\<forall>e \<in> set evs. ev_start e \<noteq> Unparseable) \<longrightarrow>
           sorted_wrt (\<lambda>a b. startTime now a \<le> startTime now b) (sortedEvents now evs))"
proof -
  have inv: "laneInv now gridDates (organizeEventsForGrid now (Some evs) gridDates)"
    by (rule laneInv_organize)
  then have ok: "lanesOk now gridDates (rowLog (organizeEventsForGrid now (Some evs) gridDates))"
    and segs: "\<forall>s \<in> set (multiDayEvents (organizeEventsForGrid now (Some evs) gridDates)).
        (seg_event s, eventRow s) \<in> set (rowLog (organizeEventsForGrid now (Some evs) gridDates))"
    unfolding laneInv_def by blast+
  from ok have free: "\<forall>i j. i < j
        \<and> j < length (rowLog (organizeEventsForGrid now (Some evs) gridDates))
        \<and> overlap
            (eventCells now gridDates
               (fst (rowLog (organizeEventsForGrid now (Some evs) gridDates) ! i)))
            (eventCells now gridDates
               (fst (rowLog (organizeEventsForGrid now (Some evs) gridDates) ! j)))
      \<longrightarrow> snd (rowLog (organizeEventsForGrid now (Some evs) gridDates) ! i)
          \<noteq> snd (rowLog (organizeEventsForGrid now (Some evs) gridDates) ! j)"
    unfolding lanesOk_def by blast
  from ok have fit: "\<forall>j < length (rowLog (organizeEventsForGrid now (Some evs) gridDates)).
      \<forall>r < snd (rowLog (organizeEventsForGrid now (Some evs) gridDates) ! j).
        \<exists>i < j. snd (rowLog (organizeEventsForGrid now (Some evs) gridDates) ! i) = r
          \<and> overlap
              (eventCells now gridDates
                 (fst (rowLog (organizeEventsForGrid now (Some evs) gridDates) ! i)))
              (eventCells now gridDates
                 (fst (rowLog (organizeEventsForGrid now (Some evs) gridDates) ! j)))"
    unfolding lanesOk_def by blast
  show ?thesis
    unfolding Let_def
    using free fit segs rowLog_organize [of now evs gridDates] mset_sortedEvents [of now evs]
      sorted_sortedEvents [of evs now]
    by (intro conjI impI) assumption+
qed

theorem lane_assignment_overlap_free_witness:
  "overlap
     (eventCells 0 (gridDatesOf 2026 0)
        (fst (rowLog (organizeEventsForGrid 0
           (Some [\<lparr>ev_start = Iso (20460 * 86400000), ev_end = Iso (20463 * 86400000),
                    all_day = True, summary = ''B'', calendar_name = ''''\<rparr>,
                  \<lparr>ev_start = Iso (20458 * 86400000), ev_end = Iso (20461 * 86400000),
                    all_day = True, summary = ''A'', calendar_name = ''''\<rparr>])
           (gridDatesOf 2026 0)) ! 0)))
     (eventCells 0 (gridDatesOf 2026 0)
        (fst (rowLog (organizeEventsForGrid 0
           (Some [\<lparr>ev_start = Iso (20460 * 86400000), ev_end = Iso (20463 * 86400000),
                    all_day = True, summary = ''B'', calendar_name = ''''\<rparr>,
                  \<lparr>ev_start = Iso (20458 * 86400000), ev_end = Iso (20461 * 86400000),
                    all_day = True, summary = ''A'', calendar_name = ''''\<rparr>])
           (gridDatesOf 2026 0)) ! 1)))
   \<and> snd (rowLog (organizeEventsForGrid 0
           (Some [\<lparr>ev_start = Iso (20460 * 86400000), ev_end = Iso (20463 * 86400000),
                    all_day = True, summary = ''B'', calendar_name = ''''\<rparr>,
                  \<lparr>ev_start = Iso (20458 * 86400000), ev_end = Iso (20461 * 86400000),
                    all_day = True, summary = ''A'', calendar_name = ''''\<rparr>])
           (gridDatesOf 2026 0)) ! 0)
     \<noteq> snd (rowLog (organizeEventsForGrid 0
           (Some [\<lparr>ev_start = Iso (20460 * 86400000), ev_end = Iso (20463 * 86400000),
                    all_day = True, summary = ''B'', calendar_name = ''''\<rparr>,
                  \<lparr>ev_start = Iso (20458 * 86400000), ev_end = Iso (20461 * 86400000),
                    all_day = True, summary = ''A'', calendar_name = ''''\<rparr>])
           (gridDatesOf 2026 0)) ! 1)
   \<and> snd (rowLog (organizeEventsForGrid 0
           (Some [\<lparr>ev_start = Iso (20460 * 86400000), ev_end = Iso (20463 * 86400000),
                    all_day = True, summary = ''B'', calendar_name = ''''\<rparr>,
                  \<lparr>ev_start = Iso (20458 * 86400000), ev_end = Iso (20461 * 86400000),
                    all_day = True, summary = ''A'', calendar_name = ''''\<rparr>])
           (gridDatesOf 2026 0)) ! 0) = 0
   \<and> sorted_wrt (\<lambda>a b. startTime 0 a \<le> startTime 0 b)
        (sortedEvents 0
           [\<lparr>ev_start = Iso (20460 * 86400000), ev_end = Iso (20463 * 86400000),
              all_day = True, summary = ''B'', calendar_name = ''''\<rparr>,
            \<lparr>ev_start = Iso (20458 * 86400000), ev_end = Iso (20461 * 86400000),
              all_day = True, summary = ''A'', calendar_name = ''''\<rparr>])"
proof -
  let ?evs = "[\<lparr>ev_start = Iso (20460 * 86400000), ev_end = Iso (20463 * 86400000),
                  all_day = True, summary = ''B'', calendar_name = ''''\<rparr>,
               \<lparr>ev_start = Iso (20458 * 86400000), ev_end = Iso (20461 * 86400000),
                  all_day = True, summary = ''A'', calendar_name = ''''\<rparr>]"
  let ?asg = "rowLog (organizeEventsForGrid 0 (Some ?evs) (gridDatesOf 2026 0))"
  note inst = lane_assignment_overlap_free [of 0 ?evs "gridDatesOf 2026 0", unfolded Let_def]
  have len: "(1::nat) < length ?asg"
    by code_simp
  have ov: "overlap (eventCells 0 (gridDatesOf 2026 0) (fst (?asg ! 0)))
      (eventCells 0 (gridDatesOf 2026 0) (fst (?asg ! 1)))"
    by code_simp
  have dates: "\<forall>e \<in> set ?evs. ev_start e \<noteq> Unparseable"
    by simp
  have "\<forall>i j. i < j \<and> j < length ?asg
        \<and> overlap (eventCells 0 (gridDatesOf 2026 0) (fst (?asg ! i)))
            (eventCells 0 (gridDatesOf 2026 0) (fst (?asg ! j)))
      \<longrightarrow> snd (?asg ! i) \<noteq> snd (?asg ! j)"
    using inst by (rule conjunct1)
  then have "0 < (1::nat) \<and> (1::nat) < length ?asg
        \<and> overlap (eventCells 0 (gridDatesOf 2026 0) (fst (?asg ! 0)))
            (eventCells 0 (gridDatesOf 2026 0) (fst (?asg ! 1)))
      \<longrightarrow> snd (?asg ! 0) \<noteq> snd (?asg ! 1)"
    by (rule allE [where x = 0], elim allE [where x = 1])
  with len ov have rows: "snd (?asg ! 0) \<noteq> snd (?asg ! 1)"
    by simp
  have "(\<forall>e \<in> set ?evs. ev_start e \<noteq> Unparseable) \<longrightarrow>
      sorted_wrt (\<lambda>a b. startTime 0 a \<le> startTime 0 b) (sortedEvents 0 ?evs)"
    using inst by (elim conjE)
  with dates have srt: "sorted_wrt (\<lambda>a b. startTime 0 a \<le> startTime 0 b) (sortedEvents 0 ?evs)"
    by (rule rev_mp)
  have row1: "snd (?asg ! 1) = 1"
    by code_simp
  have "\<forall>j < length ?asg. \<forall>r < snd (?asg ! j).
      \<exists>i < j. snd (?asg ! i) = r
        \<and> overlap (eventCells 0 (gridDatesOf 2026 0) (fst (?asg ! i)))
            (eventCells 0 (gridDatesOf 2026 0) (fst (?asg ! j)))"
    using inst by (elim conjE)
  with len row1 have "\<exists>i < 1. snd (?asg ! i) = 0
        \<and> overlap (eventCells 0 (gridDatesOf 2026 0) (fst (?asg ! i)))
            (eventCells 0 (gridDatesOf 2026 0) (fst (?asg ! 1)))"
    by (metis zero_less_one)
  then have row0: "snd (?asg ! 0) = 0"
    by auto
  from ov rows row0 srt show ?thesis
    by (intro conjI)
qed

section \<open>Properties of the display rows\<close>






section \<open>Properties of the calendar arithmetic\<close>

lemma div_succ:
  fixes x k :: int
  assumes "0 < k"
  shows "(x + 1) div k = x div k + (if (x + 1) mod k = 0 then 1 else 0)"
proof -
  define q r where "q = x div k" and "r = x mod k"
  have x: "x = q * k + r" and r: "0 \<le> r" "r < k"
    using assms by (simp_all add: q_def r_def)
  have k: "k \<noteq> 0" using assms by simp
  show ?thesis
  proof (cases "r + 1 = k")
    case True
    then have "x + 1 = (q + 1) * k"
      using x by (simp add: algebra_simps)
    then have "(x + 1) div k = q + 1" "(x + 1) mod k = 0"
      using assms by simp_all
    then show ?thesis by (simp add: q_def)
  next
    case False
    with r have s: "0 \<le> r + 1" "r + 1 < k" by simp_all
    have eq: "x + 1 = (r + 1) + q * k"
      using x by simp
    have "(x + 1) div k = q + (r + 1) div k"
      unfolding eq using k by (rule div_mult_self1)
    moreover have "(x + 1) mod k = (r + 1) mod k"
      unfolding eq by (rule mod_mult_self1)
    ultimately have "(x + 1) div k = q" "(x + 1) mod k = r + 1"
      using s by simp_all
    with r show ?thesis by (simp add: q_def)
  qed
qed

lemma mod_shift:
  fixes y :: int
  shows "(y - c * k) mod k = y mod k"
proof -
  have "(y - c * k) mod k = (y + (- c) * k) mod k" by simp
  also have "\<dots> = y mod k" by (rule mod_mult_self1)
  finally show ?thesis .
qed

lemma DayFromYear_step: "DayFromYear (y + 1) = DayFromYear y + DaysInYear y"
proof -
  have a: "(y + 1 - 1969) div 4 = (y - 1969) div 4 + (if y mod 4 = 0 then 1 else 0)"
    using div_succ [of 4 "y - 1969"] mod_shift [of y 492 4] by (simp add: algebra_simps)
  have b: "(y + 1 - 1901) div 100 = (y - 1901) div 100 + (if y mod 100 = 0 then 1 else 0)"
    using div_succ [of 100 "y - 1901"] mod_shift [of y 19 100] by (simp add: algebra_simps)
  have c: "(y + 1 - 1601) div 400 = (y - 1601) div 400 + (if y mod 400 = 0 then 1 else 0)"
    using div_succ [of 400 "y - 1601"] mod_shift [of y 4 400] by (simp add: algebra_simps)
  have "(4::int) dvd 100" "(100::int) dvd 400" by simp_all
  then have d: "y mod 400 = 0 \<Longrightarrow> y mod 100 = 0" "y mod 100 = 0 \<Longrightarrow> y mod 4 = 0"
    by (auto simp only: mod_eq_0_iff_dvd dest: dvd_trans)
  show ?thesis
  proof (cases "y mod 4 = 0")
    case False
    with d have "y mod 100 \<noteq> 0" "y mod 400 \<noteq> 0" by auto
    with False show ?thesis
      unfolding DayFromYear_def DaysInYear_def InLeapYear_def a b c by simp
  next
    case y4: True
    show ?thesis
    proof (cases "y mod 100 = 0")
      case False
      with d have "y mod 400 \<noteq> 0" by auto
      with False y4 show ?thesis
        unfolding DayFromYear_def DaysInYear_def InLeapYear_def a b c by simp
    next
      case True
      with y4 show ?thesis
        unfolding DayFromYear_def DaysInYear_def InLeapYear_def a b c by simp
    qed
  qed
qed


lemma div_bounds:
  fixes x k :: int
  assumes "0 < k"
  shows "k * (x div k) \<le> x" and "x < k * (x div k) + k"
proof -
  have "k * (x div k) + x mod k = x" by simp
  moreover have "0 \<le> x mod k" "x mod k < k" using assms by simp_all
  ultimately show "k * (x div k) \<le> x" "x < k * (x div k) + k" by linarith+
qed

lemma DayFromYear_less: "DayFromYear y < DayFromYear (y + 1)"
  unfolding DayFromYear_step by (simp add: DaysInYear_def)

lemma DayFromYear_mono_nat: "DayFromYear y \<le> DayFromYear (y + int n)"
proof (induction n)
  case 0
  show ?case by simp
next
  case (Suc n)
  have "DayFromYear (y + int n) < DayFromYear (y + int n + 1)"
    by (rule DayFromYear_less)
  moreover have "y + int (Suc n) = y + int n + 1" by simp
  ultimately show ?case using Suc by (simp only:)
qed

lemma DayFromYear_mono: "y \<le> y' \<Longrightarrow> DayFromYear y \<le> DayFromYear y'"
  using DayFromYear_mono_nat [of y "nat (y' - y)"] by simp

lemma yearUp_correct:
  "DayFromYear y \<le> d \<Longrightarrow>
     DayFromYear (yearUp y d) \<le> d \<and> d < DayFromYear (yearUp y d + 1)"
proof (induction y d rule: yearUp.induct)
  case (1 y d)
  show ?case
  proof (cases "DayFromYear (y + 1) \<le> d")
    case True
    then have "yearUp y d = yearUp (y + 1) d"
      by (subst yearUp.simps) simp
    with "1.IH" [OF True True] show ?thesis by simp
  next
    case False
    then have "yearUp y d = y"
      by (subst yearUp.simps) simp
    with False "1.prems" show ?thesis by simp
  qed
qed

lemma estimate_below:
  "DayFromYear (if 0 \<le> d then 1969 + d div 366 else 1969 + d div 365) \<le> d"
proof -
  define q where "q = (if 0 \<le> d then d div 366 else d div 365)"
  define A B C where "A = q div 4" and "B = (q + 68) div 100" and "C = (q + 368) div 400"
  have val: "DayFromYear (1969 + q) = 365 * q - 365 + A - B + C"
    by (simp add: DayFromYear_def A_def B_def C_def add.commute)
  have A: "4 * A \<le> q"
    unfolding A_def by (rule div_bounds) simp
  have B: "q + 68 < 100 * B + 100"
    unfolding B_def by (rule div_bounds) simp
  have C: "400 * C \<le> q + 368"
    unfolding C_def by (rule div_bounds) simp
  have "365 * q - 365 + A - B + C \<le> d"
  proof (cases "0 \<le> d")
    case True
    then have "0 \<le> q" "366 * q \<le> d"
      unfolding q_def using div_bounds(1) [of 366 d] by (simp_all add: pos_imp_zdiv_nonneg_iff)
    with A B C show ?thesis by linarith
  next
    case False
    then have "365 * q \<le> d"
      unfolding q_def using div_bounds(1) [of 365 d] by simp
    moreover from False have "q < 0"
      unfolding q_def by (simp add: div_neg_pos_less0)
    ultimately show ?thesis using A B C by linarith
  qed
  then have "DayFromYear (1969 + q) \<le> d"
    by (simp only: val)
  then show ?thesis
    unfolding q_def by (simp split: if_splits)
qed

lemma YearFromDay_bounds:
  "DayFromYear (YearFromDay d) \<le> d \<and> d < DayFromYear (YearFromDay d + 1)"
  unfolding YearFromDay_def by (rule yearUp_correct) (rule estimate_below)

lemma YearFromDay_unique:
  assumes "DayFromYear y \<le> d" and "d < DayFromYear (y + 1)"
  shows "YearFromDay d = y"
proof (rule ccontr)
  assume ne: "YearFromDay d \<noteq> y"
  note b = YearFromDay_bounds [of d]
  show False
  proof (cases "YearFromDay d < y")
    case True
    then have "DayFromYear (YearFromDay d + 1) \<le> DayFromYear y"
      by (intro DayFromYear_mono) simp
    with b assms show False by linarith
  next
    case False
    with ne have "DayFromYear (y + 1) \<le> DayFromYear (YearFromDay d)"
      by (intro DayFromYear_mono) simp
    with b assms show False by linarith
  qed
qed

lemma month_cases:
  assumes "0 \<le> mn" and "mn \<le> 11"
  shows "mn = 0 \<or> mn = 1 \<or> mn = 2 \<or> mn = 3 \<or> mn = 4 \<or> mn = 5 \<or> mn = 6 \<or> mn = 7
       \<or> mn = 8 \<or> mn = 9 \<or> mn = 10 \<or> mn = (11::int)"
  using assms by presburger

lemma daysIn_range:
  assumes "0 \<le> mn" and "mn \<le> 11"
  shows "28 \<le> daysIn leap mn \<and> daysIn leap mn \<le> 31"
  using month_cases [OF assms] by (auto simp: daysIn_def monthStart_def)

lemma monthStart_range:
  assumes "0 \<le> mn" and "mn \<le> 11"
  shows "0 \<le> monthStart leap mn
       \<and> monthStart leap mn + daysIn leap mn \<le> (if leap then 366 else 365)"
  using month_cases [OF assms] by (auto simp: daysIn_def monthStart_def)

lemma monthOf_monthStart:
  assumes "0 \<le> mn" and "mn \<le> 11" and "0 \<le> k" and "k < daysIn leap mn"
  shows "monthOf leap (monthStart leap mn + k) = mn"
  using month_cases [OF assms(1,2)] assms(3,4)
  by (elim disjE) (simp_all add: daysIn_def monthStart_def monthOf_def)

lemma MakeDay_day: "MakeDay Y M dt = MakeDay Y M 1 + dt - 1"
  by (simp add: MakeDay_def Let_def)

lemma fields_in_month:
  assumes "0 \<le> k" and "k < daysIn (InLeapYear (Y + M div 12)) (M mod 12)"
  shows "YearFromDay (MakeDay Y M 1 + k) = Y + M div 12"
    and "MonthFromDay (MakeDay Y M 1 + k) = M mod 12"
    and "DateFromDay (MakeDay Y M 1 + k) = k + 1"
proof -
  define ym mn where "ym = Y + M div 12" and "mn = M mod 12"
  define leap where "leap = InLeapYear ym"
  have mn: "0 \<le> mn" "mn \<le> 11"
    unfolding mn_def by simp_all
  have d: "MakeDay Y M 1 + k = DayFromYear ym + (monthStart leap mn + k)"
    by (simp add: MakeDay_def Let_def ym_def mn_def leap_def)
  from assms have k: "k < daysIn leap mn"
    by (simp add: ym_def mn_def leap_def)
  have "0 \<le> monthStart leap mn + k" "monthStart leap mn + k < DaysInYear ym"
    using monthStart_range [OF mn, of leap] assms(1) k
    by (simp_all add: DaysInYear_def leap_def split: if_splits)
  then have "DayFromYear ym \<le> MakeDay Y M 1 + k"
    "MakeDay Y M 1 + k < DayFromYear (ym + 1)"
    unfolding d DayFromYear_step by simp_all
  then have y: "YearFromDay (MakeDay Y M 1 + k) = ym"
    by (rule YearFromDay_unique)
  then have w: "DayWithinYear (MakeDay Y M 1 + k) = monthStart leap mn + k"
    by (simp add: DayWithinYear_def d)
  have m: "MonthFromDay (MakeDay Y M 1 + k) = mn"
    unfolding MonthFromDay_def y w leap_def [symmetric]
    using mn assms(1) k by (rule monthOf_monthStart)
  show "YearFromDay (MakeDay Y M 1 + k) = Y + M div 12"
    using y by (simp add: ym_def)
  show "MonthFromDay (MakeDay Y M 1 + k) = M mod 12"
    using m by (simp add: mn_def)
  show "DateFromDay (MakeDay Y M 1 + k) = k + 1"
    unfolding DateFromDay_def y w m leap_def [symmetric] by simp
qed

lemma mod_succ:
  fixes x k :: int
  assumes "0 < k"
  shows "(x + 1) mod k = (if x mod k + 1 = k then 0 else x mod k + 1)"
proof -
  have "(x + 1) mod k = (x mod k + 1) mod k"
    by (simp add: mod_add_left_eq)
  moreover have "0 \<le> x mod k" "x mod k < k"
    using assms by simp_all
  ultimately show ?thesis
    by (auto simp: mod_pos_pos_trivial)
qed

lemma MakeDay_next_month:
  "MakeDay Y (M + 1) 1 = MakeDay Y M 1 + daysIn (InLeapYear (Y + M div 12)) (M mod 12)"
proof (cases "M mod 12 = 11")
  case True
  then have m: "(M + 1) mod 12 = 0"
    using mod_succ [of 12 M] by simp
  with div_succ [of 12 M] have dv: "(M + 1) div 12 = M div 12 + 1"
    by simp
  have "Y + (M div 12 + 1) = Y + M div 12 + 1"
    by simp
  then have "DayFromYear (Y + (M div 12 + 1))
      = DayFromYear (Y + M div 12) + DaysInYear (Y + M div 12)"
    by (simp only: DayFromYear_step)
  then show ?thesis
    unfolding MakeDay_def Let_def m dv True
    by (simp add: DaysInYear_def daysIn_def monthStart_def)
next
  case False
  then have m: "(M + 1) mod 12 = M mod 12 + 1"
    using mod_succ [of 12 M] by simp
  then have "(M + 1) mod 12 \<noteq> 0"
    using pos_mod_sign [of 12 M] by simp
  with div_succ [of 12 M] have dv: "(M + 1) div 12 = M div 12"
    by simp
  show ?thesis
    unfolding MakeDay_def Let_def m dv by (simp add: daysIn_def)
qed

lemma Day_times: "Day (d * msPerDay) = d"
  by (simp add: Day_def msPerDay_def)

lemma newDate_dayDate: "newDate y M dt = dayDate (MakeDay (fullYear y) M 1 + dt - 1)"
  unfolding newDate_def dayDate_def by (subst MakeDay_day) simp

lemma mod12_range: "0 \<le> (M::int) mod 12 \<and> M mod 12 \<le> 11"
  by simp

lemma getDaysInMonth_daysIn:
  "getDaysInMonth y M =
     daysIn (InLeapYear (fullYear y + M div 12)) (M mod 12)"
proof -
  define n where "n = daysIn (InLeapYear (fullYear y + M div 12)) (M mod 12)"
  have n: "28 \<le> n"
    unfolding n_def using daysIn_range [of "M mod 12"] by simp
  have "MakeDay (fullYear y) (M + 1) 0 = MakeDay (fullYear y) (M + 1) 1 - 1"
    by (subst MakeDay_day) simp
  also have "\<dots> = MakeDay (fullYear y) M 1 + (n - 1)"
    by (simp add: MakeDay_next_month n_def)
  finally have "getDaysInMonth y M = DateFromDay (MakeDay (fullYear y) M 1 + (n - 1))"
    by (simp add: getDaysInMonth_def)
  also have "\<dots> = (n - 1) + 1"
    using n by (intro fields_in_month(3)) (simp_all add: n_def)
  finally show ?thesis
    by (simp add: n_def)
qed

lemma getDaysInMonth_range: "28 \<le> getDaysInMonth y M \<and> getDaysInMonth y M \<le> 31"
  unfolding getDaysInMonth_daysIn using daysIn_range [of "M mod 12"] by simp

lemma MakeDay_succ_month:
  "MakeDay (fullYear y) (M + 1) 1 = MakeDay (fullYear y) M 1 + getDaysInMonth y M"
  by (simp add: MakeDay_next_month getDaysInMonth_daysIn)

lemma MakeDay_pred_month:
  "MakeDay (fullYear y) (M - 1) 1 = MakeDay (fullYear y) M 1 - getDaysInMonth y (M - 1)"
  using MakeDay_succ_month [of y "M - 1"] by simp

lemma getFirstDayOfMonth_range:
  "0 \<le> getFirstDayOfMonth y M \<and> getFirstDayOfMonth y M \<le> 6"
proof -
  have "0 \<le> WeekDay (MakeDay (fullYear y) M 1)" "WeekDay (MakeDay (fullYear y) M 1) < 7"
    by (simp_all add: WeekDay_def)
  then show ?thesis
    by (auto simp: getFirstDayOfMonth_def Let_def)
qed

lemma map_rev_upto: "map (\<lambda>i. f (c - i)) (rev [0..n]) = map f [c - n..c]"
proof (rule nth_equalityI)
  show "length (map (\<lambda>i. f (c - i)) (rev [0..n])) = length (map f [c - n..c])"
    by simp
next
  fix k assume "k < length (map (\<lambda>i. f (c - i)) (rev [0..n]))"
  then have k: "int k \<le> n" "k < nat (n + 1)"
    by simp_all
  then have "rev [0..n] ! k = [0..n] ! (nat (n + 1) - Suc k)"
    by (simp add: rev_nth)
  also have "\<dots> = n - int k"
    using k by (subst nth_upto) simp_all
  finally have "map (\<lambda>i. f (c - i)) (rev [0..n]) ! k = f (c - (n - int k))"
    using k by simp
  moreover have "map f [c - n..c] ! k = f (c - n + int k)"
    using k by simp
  ultimately show "map (\<lambda>i. f (c - i)) (rev [0..n]) ! k = map f [c - n..c] ! k"
    by (simp add: algebra_simps)
qed

lemma map_upto_shift: "map (\<lambda>i. f (c + i)) [a..b] = map f [c + a..c + b]"
proof (rule nth_equalityI)
  show "length (map (\<lambda>i. f (c + i)) [a..b]) = length (map f [c + a..c + b])"
    by simp
next
  fix k assume "k < length (map (\<lambda>i. f (c + i)) [a..b])"
  then have k: "a + int k \<le> b" "k < nat (b - a + 1)" by simp_all
  then have "[a..b] ! k = a + int k" "[c + a..c + b] ! k = c + a + int k"
    by simp_all
  with k show "map (\<lambda>i. f (c + i)) [a..b] ! k = map f [c + a..c + b] ! k"
    by (simp add: add.assoc)
qed

lemma upto_append:
  assumes "a \<le> b + 1" and "b \<le> c"
  shows "[a..b] @ [b + 1..c] = [a..c]"
proof (cases "a \<le> b")
  case True
  with assms show ?thesis by (simp add: upto_split2 [of a b c])
next
  case False
  with assms have "a = b + 1" by simp
  then show ?thesis by simp
qed

lemma gridDatesOf_days:
  "gridDatesOf y m =
     (let first = MakeDay (fullYear y) m 1;
          fd = getFirstDayOfMonth y m;
          N = getDaysInMonth y m;
          remaining = (if (fd + N) mod 7 = 0 then 0 else 7 - (fd + N) mod 7)
      in map dayDate [first - fd..first + N + remaining - 1])"
proof -
  define first where "first = MakeDay (fullYear y) m 1"
  define fd where "fd = getFirstDayOfMonth y m"
  define N where "N = getDaysInMonth y m"
  define P where "P = getDaysInMonth y (m - 1)"
  define remaining where "remaining = (if (fd + N) mod 7 = 0 then 0 else 7 - (fd + N) mod 7)"
  have fd: "0 \<le> fd" "fd \<le> 6"
    unfolding fd_def using getFirstDayOfMonth_range [of y m] by simp_all
  have N: "28 \<le> N"
    unfolding N_def using getDaysInMonth_range [of y m] by simp
  have rem: "0 \<le> remaining"
    unfolding remaining_def using pos_mod_bound [of 7 "fd + N"] by auto
  have prev: "map (\<lambda>i. newDate y (m - 1) (P - i)) (rev [0..fd - 1]) = map dayDate [first - fd..first - 1]"
  proof -
    have "newDate y (m - 1) (P - i) = dayDate (first - 1 - i)" for i
      unfolding newDate_dayDate MakeDay_pred_month first_def P_def by (simp add: algebra_simps)
    then have "map (\<lambda>i. newDate y (m - 1) (P - i)) (rev [0..fd - 1])
        = map (\<lambda>i. dayDate (first - 1 - i)) (rev [0..fd - 1])"
      by simp
    also have "\<dots> = map dayDate [first - 1 - (fd - 1)..first - 1]"
      by (rule map_rev_upto)
    finally show ?thesis by (simp add: algebra_simps)
  qed
  have cur: "map (\<lambda>day. newDate y m day) [1..N] = map dayDate [first..first + N - 1]"
  proof -
    have "newDate y m day = dayDate (first - 1 + day)" for day
      unfolding newDate_dayDate first_def by (simp add: algebra_simps)
    then have "map (\<lambda>day. newDate y m day) [1..N] = map (\<lambda>day. dayDate (first - 1 + day)) [1..N]"
      by simp
    also have "\<dots> = map dayDate [first - 1 + 1..first - 1 + N]"
      by (rule map_upto_shift)
    finally show ?thesis by (simp add: algebra_simps)
  qed
  have nxt: "map (\<lambda>day. newDate y (m + 1) day) [1..remaining]
      = map dayDate [first + N..first + N + remaining - 1]"
  proof -
    have "newDate y (m + 1) day = dayDate (first + N - 1 + day)" for day
      unfolding newDate_dayDate MakeDay_succ_month first_def N_def by (simp add: algebra_simps)
    then have "map (\<lambda>day. newDate y (m + 1) day) [1..remaining]
        = map (\<lambda>day. dayDate (first + N - 1 + day)) [1..remaining]"
      by simp
    also have "\<dots> = map dayDate [first + N - 1 + 1..first + N - 1 + remaining]"
      by (rule map_upto_shift)
    finally show ?thesis by (simp add: algebra_simps)
  qed
  have total: "int (length (map (\<lambda>i. newDate y (m - 1) (P - i)) (rev [0..fd - 1])
      @ map (\<lambda>day. newDate y m day) [1..N])) = fd + N"
    using fd N by simp
  have "gridDatesOf y m = map dayDate [first - fd..first - 1] @ map dayDate [first..first + N - 1]
      @ map dayDate [first + N..first + N + remaining - 1]"
    unfolding gridDatesOf_def Let_def
    unfolding fd_def [symmetric] N_def [symmetric] P_def [symmetric]
    unfolding total
    unfolding prev cur remaining_def [symmetric] nxt ..
  also have "\<dots> = map dayDate (([first - fd..first - 1] @ [first - 1 + 1..first + N - 1])
      @ [first + N - 1 + 1..first + N + remaining - 1])"
    by simp
  also have "[first - fd..first - 1] @ [first - 1 + 1..first + N - 1] = [first - fd..first + N - 1]"
    using fd N by (intro upto_append) simp_all
  also have "[first - fd..first + N - 1] @ [first + N - 1 + 1..first + N + remaining - 1]
      = [first - fd..first + N + remaining - 1]"
    using fd N rem by (intro upto_append) simp_all
  finally show ?thesis
    unfolding Let_def first_def fd_def N_def remaining_def .
qed

lemma getters_dayDate:
  "getFullYear (dayDate d) = Some (YearFromDay d)"
  "getMonth (dayDate d) = Some (MonthFromDay d)"
  "getDate (dayDate d) = Some (DateFromDay d)"
  "getDay (dayDate d) = Some (WeekDay d)"
  by (simp_all add: dayDate_def Day_times)

lemma monday_first:
  "WeekDay (MakeDay (fullYear y) m 1 - getFirstDayOfMonth y m + i) = (i + 1) mod 7"
proof -
  define w where "w = (MakeDay (fullYear y) m 1 + 4) mod 7"
  have w: "0 \<le> w" "w < 7"
    by (simp_all add: w_def)
  have fd: "getFirstDayOfMonth y m = (if w = 0 then 6 else w - 1)"
    by (simp add: getFirstDayOfMonth_def WeekDay_def Let_def w_def)
  have "(MakeDay (fullYear y) m 1 - getFirstDayOfMonth y m + i + 4) mod 7
      = ((MakeDay (fullYear y) m 1 + 4) mod 7 + (i - getFirstDayOfMonth y m) mod 7) mod 7"
    by (simp add: mod_add_eq algebra_simps)
  also have "\<dots> = (w + (i - getFirstDayOfMonth y m)) mod 7"
    by (simp add: w_def mod_add_right_eq)
  also have "\<dots> = (i + 1) mod 7"
  proof (cases "w = 0")
    case True
    have eq: "w + (i - getFirstDayOfMonth y m) = (i + 1) + (- 1) * 7"
      using True by (simp add: fd)
    show ?thesis
      unfolding eq by (rule mod_mult_self1)
  next
    case False
    have eq: "w + (i - getFirstDayOfMonth y m) = i + 1"
      using False by (simp add: fd)
    show ?thesis
      unfolding eq ..
  qed
  finally show ?thesis
    by (simp add: WeekDay_def)
qed

lemma grid_length:
  fixes fd N :: int
  assumes "0 \<le> fd" and "0 \<le> N"
  defines "remaining \<equiv> (if (fd + N) mod 7 = 0 then 0 else 7 - (fd + N) mod 7)"
  shows "(fd + N + remaining) mod 7 = 0" and "0 \<le> remaining" and "remaining < 7"
proof -
  have b: "0 \<le> (fd + N) mod 7" "(fd + N) mod 7 < 7"
    by simp_all
  show "0 \<le> remaining" "remaining < 7"
    using b unfolding remaining_def by auto
  show "(fd + N + remaining) mod 7 = 0"
  proof (cases "(fd + N) mod 7 = 0")
    case True
    then show ?thesis by (simp add: remaining_def)
  next
    case False
    define q r where "q = (fd + N) div 7" and "r = (fd + N) mod 7"
    have "7 * q + r = fd + N"
      unfolding q_def r_def by (rule mult_div_mod_eq)
    then have "fd + N + (7 - r) = (q + 1) * 7"
      by (simp add: algebra_simps)
    then have "(fd + N + (7 - r)) mod 7 = 0"
      by (simp only: mod_mult_self2_is_0)
    then have z: "(fd + N + (7 - (fd + N) mod 7)) mod 7 = 0"
      by (simp only: r_def)
    have r: "remaining = 7 - (fd + N) mod 7"
      using False by (simp add: remaining_def)
    show ?thesis
      unfolding r by (fact z)
  qed
qed

text \<open>
  C6. For every year and every month from 0 to 11 the grid is built, and: its length is a
  multiple of 7; it is the run of consecutive days that starts \<^verbatim>\<open>firstDay\<close> days before
  the first of the month, where \<^verbatim>\<open>firstDay\<close> (0 to 6) is the weekday of the first with
  Monday as 0, so that the cell of index i is a Monday exactly when i is a multiple of 7;
  after the \<^verbatim>\<open>firstDay\<close> last days of the previous month come the days 1 to N of the
  month, in order, and then fewer than 7 days of the next month, numbered from 1. The
  year of the month is the year as the Date constructor reads it, \<open>fullYear y\<close>, which
  is \<open>y\<close> itself outside 0 to 99.
\<close>

theorem grid_builder_shape:
  assumes "0 \<le> m" and "m \<le> 11"
  shows "let Y = fullYear y; G = gridDatesOf y m; fd = getFirstDayOfMonth y m;
             N = getDaysInMonth y m; first = MakeDay Y m 1
         in 0 \<le> fd \<and> fd \<le> 6 \<and> 28 \<le> N \<and> N \<le> 31
          \<and> int (length G) mod 7 = 0 \<and> fd + N \<le> int (length G) \<and> int (length G) < fd + N + 7
          \<and> G = map dayDate [first - fd..first - fd + int (length G) - 1]
          \<and> (\<forall>i. 0 \<le> i \<and> i < int (length G) \<longrightarrow> getDay (G ! nat i) = Some ((i + 1) mod 7))
          \<and> (\<forall>k. 0 \<le> k \<and> k < N \<longrightarrow>
                getFullYear (G ! nat (fd + k)) = Some Y
              \<and> getMonth (G ! nat (fd + k)) = Some m
              \<and> getDate (G ! nat (fd + k)) = Some (k + 1))
          \<and> (\<forall>i. 0 \<le> i \<and> i < fd \<longrightarrow>
                getFullYear (G ! nat i) = Some (if m = 0 then Y - 1 else Y)
              \<and> getMonth (G ! nat i) = Some (if m = 0 then 11 else m - 1))
          \<and> (\<forall>j. fd + N \<le> j \<and> j < int (length G) \<longrightarrow>
                getFullYear (G ! nat j) = Some (if m = 11 then Y + 1 else Y)
              \<and> getMonth (G ! nat j) = Some (if m = 11 then 0 else m + 1)
              \<and> getDate (G ! nat j) = Some (j - fd - N + 1))"
proof -
  define Y where "Y = fullYear y"
  define G where "G = gridDatesOf y m"
  define fd where "fd = getFirstDayOfMonth y m"
  define N where "N = getDaysInMonth y m"
  define P where "P = getDaysInMonth y (m - 1)"
  define first where "first = MakeDay Y m 1"
  define remaining where "remaining = (if (fd + N) mod 7 = 0 then 0 else 7 - (fd + N) mod 7)"
  have fd: "0 \<le> fd" "fd \<le> 6"
    unfolding fd_def using getFirstDayOfMonth_range [of y m] by simp_all
  have N: "28 \<le> N" "N \<le> 31"
    unfolding N_def using getDaysInMonth_range [of y m] by simp_all
  have P: "28 \<le> P"
    unfolding P_def using getDaysInMonth_range [of y "m - 1"] by simp
  have rem: "(fd + N + remaining) mod 7 = 0" "0 \<le> remaining" "remaining < 7"
    unfolding remaining_def using fd N by (intro grid_length; simp)+
  have G: "G = map dayDate [first - fd..first + N + remaining - 1]"
    unfolding G_def gridDatesOf_days Let_def
    by (simp add: first_def Y_def fd_def N_def remaining_def)
  have len: "int (length G) = fd + N + remaining"
    unfolding G using fd N rem by simp
  have nth: "G ! nat i = dayDate (first - fd + i)" if "0 \<le> i" "i < int (length G)" for i
  proof -
    from that len have "first - fd + int (nat i) \<le> first + N + remaining - 1"
      "nat i < length [first - fd..first + N + remaining - 1]"
      by simp_all
    then show ?thesis
      unfolding G using that by (simp del: length_upto)
  qed
  have G': "G = map dayDate [first - fd..first - fd + int (length G) - 1]"
    unfolding len by (subst G) (simp add: algebra_simps)
  have wd: "getDay (G ! nat i) = Some ((i + 1) mod 7)" if "0 \<le> i" "i < int (length G)" for i
    unfolding nth [OF that] first_def Y_def fd_def
    by (simp add: monday_first getters_dayDate)
  have m12: "m div 12 = 0" "m mod 12 = m"
    using assms by simp_all
  have cur: "getFullYear (G ! nat (fd + k)) = Some Y \<and> getMonth (G ! nat (fd + k)) = Some m
      \<and> getDate (G ! nat (fd + k)) = Some (k + 1)" if "0 \<le> k" "k < N" for k
  proof -
    have "k < daysIn (InLeapYear (Y + m div 12)) (m mod 12)"
      using that unfolding N_def getDaysInMonth_daysIn Y_def by simp
    note f = fields_in_month [OF that(1) this]
    have "G ! nat (fd + k) = dayDate (first - fd + (fd + k))"
      using nth [of "fd + k"] that fd len rem by simp
    then have gk: "G ! nat (fd + k) = dayDate (MakeDay Y m 1 + k)"
      by (simp add: first_def)
    show ?thesis
      unfolding gk getters_dayDate f m12 by simp
  qed
  have prevm: "(m - 1) div 12 = (if m = 0 then - 1 else 0)"
    "(m - 1) mod 12 = (if m = 0 then 11 else m - 1)"
    using assms by (auto simp: div_pos_pos_trivial mod_pos_pos_trivial)
  have prv: "getFullYear (G ! nat i) = Some (if m = 0 then Y - 1 else Y)
      \<and> getMonth (G ! nat i) = Some (if m = 0 then 11 else m - 1)" if "0 \<le> i" "i < fd" for i
  proof -
    have k: "0 \<le> P - fd + i" "P - fd + i < daysIn (InLeapYear (Y + (m - 1) div 12)) ((m - 1) mod 12)"
      using that fd P unfolding P_def getDaysInMonth_daysIn Y_def by simp_all
    note f = fields_in_month [OF k]
    have d: "first - fd + i = MakeDay Y (m - 1) 1 + (P - fd + i)"
      unfolding first_def Y_def P_def MakeDay_pred_month by simp
    have "G ! nat i = dayDate (first - fd + i)"
      using nth [of i] that fd N len rem by simp
    then have gi: "G ! nat i = dayDate (MakeDay Y (m - 1) 1 + (P - fd + i))"
      by (simp only: d)
    show ?thesis
      unfolding gi getters_dayDate f prevm by auto
  qed
  have nextm: "(m + 1) div 12 = (if m = 11 then 1 else 0)"
    "(m + 1) mod 12 = (if m = 11 then 0 else m + 1)"
    using assms by (auto simp: div_pos_pos_trivial mod_pos_pos_trivial)
  have nxt: "getFullYear (G ! nat j) = Some (if m = 11 then Y + 1 else Y)
      \<and> getMonth (G ! nat j) = Some (if m = 11 then 0 else m + 1)
      \<and> getDate (G ! nat j) = Some (j - fd - N + 1)" if "fd + N \<le> j" "j < int (length G)" for j
  proof -
    have "28 \<le> daysIn (InLeapYear (Y + (m + 1) div 12)) ((m + 1) mod 12)"
      using daysIn_range [of "(m + 1) mod 12"] by simp
    then have k: "0 \<le> j - fd - N"
      "j - fd - N < daysIn (InLeapYear (Y + (m + 1) div 12)) ((m + 1) mod 12)"
      using that len rem by simp_all
    note f = fields_in_month [OF k]
    have d: "first - fd + j = MakeDay Y (m + 1) 1 + (j - fd - N)"
      unfolding first_def Y_def N_def MakeDay_succ_month by simp
    have "G ! nat j = dayDate (first - fd + j)"
      using nth [of j] that fd N by simp
    then have gj: "G ! nat j = dayDate (MakeDay Y (m + 1) 1 + (j - fd - N))"
      by (simp only: d)
    show ?thesis
      unfolding gj getters_dayDate f nextm by auto
  qed
  have "int (length G) mod 7 = 0" "fd + N \<le> int (length G)" "int (length G) < fd + N + 7"
    unfolding len using rem by simp_all
  with fd N G' wd cur prv nxt show ?thesis
    unfolding Let_def Y_def [symmetric] G_def [symmetric] fd_def [symmetric] N_def [symmetric]
      first_def [symmetric]
    by blast
qed

theorem grid_builder_shape_witness:
  "int (length (gridDatesOf 2026 0)) mod 7 = 0
   \<and> gridDatesOf 2026 0 = map dayDate [20451..20485]
   \<and> getDay (gridDatesOf 2026 0 ! 0) = Some 1
   \<and> getFullYear (gridDatesOf 2026 0 ! 3) = Some 2026
   \<and> getMonth (gridDatesOf 2026 0 ! 3) = Some 0
   \<and> getDate (gridDatesOf 2026 0 ! 3) = Some 1
   \<and> getFullYear (gridDatesOf 2026 0 ! 2) = Some 2025
   \<and> getMonth (gridDatesOf 2026 0 ! 2) = Some 11
   \<and> getMonth (gridDatesOf 2026 0 ! 34) = Some 1
   \<and> getDate (gridDatesOf 2026 0 ! 34) = Some 1"
proof -
  note inst = grid_builder_shape [of 0 2026, unfolded Let_def, simplified]
  have fd: "getFirstDayOfMonth 2026 0 = 3"
    by code_simp
  have N: "getDaysInMonth 2026 0 = 31"
    by code_simp
  have first: "MakeDay (fullYear 2026) 0 1 = 20454"
    by code_simp
  have len: "length (gridDatesOf 2026 0) = 35"
    by code_simp
  have Y: "fullYear 2026 = 2026"
    by (simp add: fullYear_def)
  from inst have "int (length (gridDatesOf 2026 0)) mod 7 = 0"
    by (elim conjE)
  moreover from inst have "gridDatesOf 2026 0 = map dayDate
      [MakeDay (fullYear 2026) 0 1 - getFirstDayOfMonth 2026 0..
       MakeDay (fullYear 2026) 0 1 - getFirstDayOfMonth 2026 0
         + int (length (gridDatesOf 2026 0)) - 1]"
    by (elim conjE)
  then have "gridDatesOf 2026 0 = map dayDate [20451..20485]"
    unfolding first fd len by simp
  moreover from inst have "\<forall>i. 0 \<le> i \<and> i < int (length (gridDatesOf 2026 0)) \<longrightarrow>
      getDay (gridDatesOf 2026 0 ! nat i) = Some ((i + 1) mod 7)"
    by (elim conjE)
  then have "0 \<le> (0::int) \<and> (0::int) < int (length (gridDatesOf 2026 0)) \<longrightarrow>
      getDay (gridDatesOf 2026 0 ! nat 0) = Some ((0 + 1) mod 7)"
    by (rule allE)
  then have "getDay (gridDatesOf 2026 0 ! 0) = Some 1"
    unfolding len by simp
  moreover from inst have "\<forall>k. 0 \<le> k \<and> k < getDaysInMonth 2026 0 \<longrightarrow>
      getFullYear (gridDatesOf 2026 0 ! nat (getFirstDayOfMonth 2026 0 + k)) = Some (fullYear 2026)
      \<and> getMonth (gridDatesOf 2026 0 ! nat (getFirstDayOfMonth 2026 0 + k)) = Some 0
      \<and> getDate (gridDatesOf 2026 0 ! nat (getFirstDayOfMonth 2026 0 + k)) = Some (k + 1)"
    by (elim conjE)
  then have "0 \<le> (0::int) \<and> (0::int) < getDaysInMonth 2026 0 \<longrightarrow>
      getFullYear (gridDatesOf 2026 0 ! nat (getFirstDayOfMonth 2026 0 + 0)) = Some (fullYear 2026)
      \<and> getMonth (gridDatesOf 2026 0 ! nat (getFirstDayOfMonth 2026 0 + 0)) = Some 0
      \<and> getDate (gridDatesOf 2026 0 ! nat (getFirstDayOfMonth 2026 0 + 0)) = Some (0 + 1)"
    by (rule allE)
  then have "getFullYear (gridDatesOf 2026 0 ! 3) = Some 2026
      \<and> getMonth (gridDatesOf 2026 0 ! 3) = Some 0
      \<and> getDate (gridDatesOf 2026 0 ! 3) = Some 1"
    unfolding fd N Y by (simp add: eval_nat_numeral)
  moreover from inst have "\<forall>i. 0 \<le> i \<and> i < getFirstDayOfMonth 2026 0 \<longrightarrow>
      getFullYear (gridDatesOf 2026 0 ! nat i) = Some (fullYear 2026 - 1)
      \<and> getMonth (gridDatesOf 2026 0 ! nat i) = Some 11"
    by (elim conjE)
  then have "0 \<le> (2::int) \<and> (2::int) < getFirstDayOfMonth 2026 0 \<longrightarrow>
      getFullYear (gridDatesOf 2026 0 ! nat 2) = Some (fullYear 2026 - 1)
      \<and> getMonth (gridDatesOf 2026 0 ! nat 2) = Some 11"
    by (rule allE)
  then have "getFullYear (gridDatesOf 2026 0 ! 2) = Some 2025
      \<and> getMonth (gridDatesOf 2026 0 ! 2) = Some 11"
    unfolding fd Y by (simp add: eval_nat_numeral)
  moreover from inst have "\<forall>j. getFirstDayOfMonth 2026 0 + getDaysInMonth 2026 0 \<le> j
        \<and> j < int (length (gridDatesOf 2026 0)) \<longrightarrow>
      getFullYear (gridDatesOf 2026 0 ! nat j) = Some (fullYear 2026)
      \<and> getMonth (gridDatesOf 2026 0 ! nat j) = Some 1
      \<and> getDate (gridDatesOf 2026 0 ! nat j)
          = Some (j - getFirstDayOfMonth 2026 0 - getDaysInMonth 2026 0 + 1)"
    by (elim conjE)
  then have "getFirstDayOfMonth 2026 0 + getDaysInMonth 2026 0 \<le> 34
        \<and> 34 < int (length (gridDatesOf 2026 0)) \<longrightarrow>
      getFullYear (gridDatesOf 2026 0 ! nat 34) = Some (fullYear 2026)
      \<and> getMonth (gridDatesOf 2026 0 ! nat 34) = Some 1
      \<and> getDate (gridDatesOf 2026 0 ! nat 34)
          = Some (34 - getFirstDayOfMonth 2026 0 - getDaysInMonth 2026 0 + 1)"
    by (rule allE)
  then have "getMonth (gridDatesOf 2026 0 ! 34) = Some 1
      \<and> getDate (gridDatesOf 2026 0 ! 34) = Some 1"
    unfolding fd N len by simp
  ultimately show ?thesis
    by (intro conjI) (erule conjunct1 conjunct2 | assumption | (drule conjunct2, erule conjunct1) | (drule conjunct2, erule conjunct2))+
qed

end
